theory Spec2Isabelle
  imports Main "HOL-Library.FSet"
begin

section \<open>Data model of searchTree2D.h\<close>

text \<open>
  The four quadrant keys of \<^verbatim>\<open>enum class RegionCode\<close>. A node's
  \<^verbatim>\<open>std::map<RegionCode, Node*>\<close> always holds exactly these four keys (both
  constructors insert them and nothing erases a key), and every loop over the map visits them
  in the order of their enum values: UPPER_LEFT, UPPER_RIGHT, LOWER_LEFT, LOWER_RIGHT.
\<close>

datatype RegionCode = UPPER_LEFT | UPPER_RIGHT | LOWER_LEFT | LOWER_RIGHT

definition g_minDataSize :: nat where
  "g_minDataSize = 3"

text \<open>
  The abstract interface \<^verbatim>\<open>SearchPredicate<Value, NodeCompare>\<close>: five virtual
  functions, taken as pure functions of their arguments. \<^verbatim>\<open>buildQuadrantsFromData\<close>
  receives references to four search spaces and overwrites them in place; here it takes the four
  current search spaces and returns the four new ones.
\<close>

record ('v, 'c) SearchPredicate =
  nilCompare :: 'c
  buildRegionFromData :: "'v fset \<Rightarrow> 'c"
  buildQuadrantsFromData :: "'c \<Rightarrow> 'v fset \<Rightarrow> (RegionCode \<Rightarrow> 'c) \<Rightarrow> (RegionCode \<Rightarrow> 'c)"
  satisfies :: "'c \<Rightarrow> 'v \<Rightarrow> bool"
  overlaps :: "'c \<Rightarrow> 'c \<Rightarrow> bool"

text \<open>
  \<^verbatim>\<open>SearchTree2D::Node\<close>: the predicate pointer (\<open>None\<close> is \<^verbatim>\<open>nullptr\<close>), the
  node's search space, the four child slots of \<^verbatim>\<open>m_mapRegions\<close> (\<open>None\<close> is a null
  slot; a child is owned by exactly one slot, so it is held by value), and the local
  \<^verbatim>\<open>std::set<Value>\<close>.
\<close>

datatype ('v, 'c) Node =
  Node (m_predicate: "('v, 'c) SearchPredicate option")
       (m_compare: 'c)
       (slotUL: "('v, 'c) Node option")
       (slotUR: "('v, 'c) Node option")
       (slotLL: "('v, 'c) Node option")
       (slotLR: "('v, 'c) Node option")
       (m_data: "'v fset")

text \<open>\<^verbatim>\<open>m_mapRegions[r]\<close>.\<close>

fun m_mapRegions :: "('v, 'c) Node \<Rightarrow> RegionCode \<Rightarrow> ('v, 'c) Node option" where
  "m_mapRegions n UPPER_LEFT = slotUL n"
| "m_mapRegions n UPPER_RIGHT = slotUR n"
| "m_mapRegions n LOWER_LEFT = slotLL n"
| "m_mapRegions n LOWER_RIGHT = slotLR n"

text \<open>
  \<^verbatim>\<open>Node::Node(Predicate*)\<close>. Its two call sites (\<^verbatim>\<open>SearchTree2D::add\<close> and
  \<^verbatim>\<open>Node::rebalance\<close>) run only after \<^verbatim>\<open>m_predicate\<close> was tested to be non-null,
  so the constructor's \<^verbatim>\<open>if (predicate)\<close> branch is always taken and the search space
  is the predicate's \<^verbatim>\<open>nilCompare()\<close>.
\<close>

definition newNode :: "('v, 'c) SearchPredicate \<Rightarrow> ('v, 'c) Node" where
  "newNode predicate = Node (Some predicate) (nilCompare predicate) None None None None {||}"

text \<open>\<^verbatim>\<open>Node::hasChildren\<close>: at least one slot is not null.\<close>

fun hasChildren :: "('v, 'c) Node \<Rightarrow> bool" where
  "hasChildren (Node p c ul ur ll lr d) = (ul \<noteq> None \<or> ur \<noteq> None \<or> ll \<noteq> None \<or> lr \<noteq> None)"

text \<open>\<^verbatim>\<open>Node::getAllChildValues\<close>.\<close>

fun getAllChildValues :: "('v, 'c) Node \<Rightarrow> 'v fset" where
  "getAllChildValues (Node p c ul ur ll lr d) =
     (if ul \<noteq> None \<or> ur \<noteq> None \<or> ll \<noteq> None \<or> lr \<noteq> None
      then (case ul of None \<Rightarrow> {||} | Some n \<Rightarrow> getAllChildValues n)
        |\<union>| (case ur of None \<Rightarrow> {||} | Some n \<Rightarrow> getAllChildValues n)
        |\<union>| (case ll of None \<Rightarrow> {||} | Some n \<Rightarrow> getAllChildValues n)
        |\<union>| (case lr of None \<Rightarrow> {||} | Some n \<Rightarrow> getAllChildValues n)
      else {||})
     |\<union>| d"

text \<open>\<^verbatim>\<open>Node::getNearbyValues\<close>.\<close>

fun getNearbyValues :: "('v, 'c) Node \<Rightarrow> 'c \<Rightarrow> 'v fset" where
  "getNearbyValues (Node p c ul ur ll lr d) compare =
     (if ul \<noteq> None \<or> ur \<noteq> None \<or> ll \<noteq> None \<or> lr \<noteq> None
      then (case ul of None \<Rightarrow> {||} | Some n \<Rightarrow> getNearbyValues n compare)
        |\<union>| (case ur of None \<Rightarrow> {||} | Some n \<Rightarrow> getNearbyValues n compare)
        |\<union>| (case ll of None \<Rightarrow> {||} | Some n \<Rightarrow> getNearbyValues n compare)
        |\<union>| (case lr of None \<Rightarrow> {||} | Some n \<Rightarrow> getNearbyValues n compare)
      else {||})
     |\<union>| (case p of None \<Rightarrow> {||}
          | Some pr \<Rightarrow> if overlaps pr c compare then d else {||})"

text \<open>\<^verbatim>\<open>Node::setPredicate\<close>.\<close>

fun setPredicate :: "('v, 'c) Node \<Rightarrow> ('v, 'c) SearchPredicate option \<Rightarrow> ('v, 'c) Node" where
  "setPredicate (Node p c ul ur ll lr d) predicate =
     Node predicate c
       (case ul of None \<Rightarrow> None | Some n \<Rightarrow> Some (setPredicate n predicate))
       (case ur of None \<Rightarrow> None | Some n \<Rightarrow> Some (setPredicate n predicate))
       (case ll of None \<Rightarrow> None | Some n \<Rightarrow> Some (setPredicate n predicate))
       (case lr of None \<Rightarrow> None | Some n \<Rightarrow> Some (setPredicate n predicate))
       d"

text \<open>
  \<^verbatim>\<open>Node::add\<close>. The value goes to every non-null child whose search space it satisfies
  (tested with this node's predicate); \<^verbatim>\<open>wasAdded\<close> records whether there was one, and
  a value that went nowhere is kept in this node's own set.
\<close>

fun add :: "('v, 'c) Node \<Rightarrow> 'v \<Rightarrow> ('v, 'c) Node" where
  "add (Node p c ul ur ll lr d) val =
     (case p of
        None \<Rightarrow> Node p c ul ur ll lr d
      | Some pr \<Rightarrow>
          if ul \<noteq> None \<or> ur \<noteq> None \<or> ll \<noteq> None \<or> lr \<noteq> None
          then
            Node p c
              (case ul of None \<Rightarrow> None
               | Some n \<Rightarrow> if satisfies pr (m_compare n) val then Some (add n val) else Some n)
              (case ur of None \<Rightarrow> None
               | Some n \<Rightarrow> if satisfies pr (m_compare n) val then Some (add n val) else Some n)
              (case ll of None \<Rightarrow> None
               | Some n \<Rightarrow> if satisfies pr (m_compare n) val then Some (add n val) else Some n)
              (case lr of None \<Rightarrow> None
               | Some n \<Rightarrow> if satisfies pr (m_compare n) val then Some (add n val) else Some n)
              (if (case ul of None \<Rightarrow> False | Some n \<Rightarrow> satisfies pr (m_compare n) val)
                \<or> (case ur of None \<Rightarrow> False | Some n \<Rightarrow> satisfies pr (m_compare n) val)
                \<or> (case ll of None \<Rightarrow> False | Some n \<Rightarrow> satisfies pr (m_compare n) val)
                \<or> (case lr of None \<Rightarrow> False | Some n \<Rightarrow> satisfies pr (m_compare n) val)
               then d else finsert val d)
          else Node p c ul ur ll lr (finsert val d))"

text \<open>\<^verbatim>\<open>Node::remove\<close>.\<close>

fun remove :: "('v, 'c) Node \<Rightarrow> 'v \<Rightarrow> ('v, 'c) Node" where
  "remove (Node p c ul ur ll lr d) val =
     (if ul \<noteq> None \<or> ur \<noteq> None \<or> ll \<noteq> None \<or> lr \<noteq> None
      then
        Node p c
          (case ul of None \<Rightarrow> None | Some n \<Rightarrow> Some (remove n val))
          (case ur of None \<Rightarrow> None | Some n \<Rightarrow> Some (remove n val))
          (case ll of None \<Rightarrow> None | Some n \<Rightarrow> Some (remove n val))
          (case lr of None \<Rightarrow> None | Some n \<Rightarrow> Some (remove n val))
          (d |-| {|val|})
      else Node p c ul ur ll lr (d |-| {|val|}))"

text \<open>\<^verbatim>\<open>Node::deleteChildren\<close>: every non-null slot is deleted and set to null.\<close>

fun deleteChildren :: "('v, 'c) Node \<Rightarrow> ('v, 'c) Node" where
  "deleteChildren (Node p c ul ur ll lr d) = Node p c None None None None d"

text \<open>\<^verbatim>\<open>Node::setCompare\<close> and the assignments to \<^verbatim>\<open>m_data\<close>.\<close>

fun setCompare :: "('v, 'c) Node \<Rightarrow> 'c \<Rightarrow> ('v, 'c) Node" where
  "setCompare (Node p c ul ur ll lr d) compare = Node p compare ul ur ll lr d"

fun setData :: "('v, 'c) Node \<Rightarrow> 'v fset \<Rightarrow> ('v, 'c) Node" where
  "setData (Node p c ul ur ll lr d) vals = Node p c ul ur ll lr vals"

text \<open>
  \<^verbatim>\<open>Node::clear\<close>: the children are cleared, then deleted; the local set is emptied.
\<close>

fun clear :: "('v, 'c) Node \<Rightarrow> ('v, 'c) Node" where
  "clear (Node p c ul ur ll lr d) =
     setData
       (if ul \<noteq> None \<or> ur \<noteq> None \<or> ll \<noteq> None \<or> lr \<noteq> None
        then deleteChildren
               (Node p c
                 (case ul of None \<Rightarrow> None | Some n \<Rightarrow> Some (clear n))
                 (case ur of None \<Rightarrow> None | Some n \<Rightarrow> Some (clear n))
                 (case ll of None \<Rightarrow> None | Some n \<Rightarrow> Some (clear n))
                 (case lr of None \<Rightarrow> None | Some n \<Rightarrow> Some (clear n))
                 d)
        else Node p c ul ur ll lr d)
       {||}"

text \<open>\<^verbatim>\<open>Node::buildRootRegion\<close>.\<close>

definition buildRootRegion :: "('v, 'c) Node \<Rightarrow> ('v, 'c) Node" where
  "buildRootRegion n =
     (case m_predicate n of
        None \<Rightarrow> n
      | Some pr \<Rightarrow> setCompare n (buildRegionFromData pr (getAllChildValues n)))"

text \<open>
  \<^verbatim>\<open>Node::shouldSubdivide\<close>. The two nested loops look, in the order of the set and of
  the map's keys, for a value that fails one of the quadrants, and stop at the first one.
\<close>

definition regionCodes :: "RegionCode list" where
  "regionCodes = [UPPER_LEFT, UPPER_RIGHT, LOWER_LEFT, LOWER_RIGHT]"

definition shouldSubdivide ::
  "('v::linorder, 'c) SearchPredicate \<Rightarrow> 'v fset \<Rightarrow> (RegionCode \<Rightarrow> 'c) \<Rightarrow> bool" where
  "shouldSubdivide pr vecVals mapQuads =
     list_ex (\<lambda>val. list_ex (\<lambda>quad. \<not> satisfies pr (mapQuads quad) val) regionCodes)
       (sorted_list_of_fset vecVals)"


subsection \<open>Rebalancing a node\<close>

text \<open>
  The code has no exceptions. Two things can stop \<^verbatim>\<open>Node::rebalance\<close> from returning:
  the loop that collects references to the children's search spaces dereferences every slot
  without a null check, and the recursion into freshly created children has no depth bound.
\<close>

datatype error = NullDereference | StackExhausted

text \<open>
  \<^verbatim>\<open>mapQuads.insert(QuadPair(region.first, region.second->m_compare))\<close> for every key:
  the references to the four children's search spaces, or the null dereference.
\<close>

fun collectQuads :: "('v, 'c) Node \<Rightarrow> (RegionCode \<Rightarrow> 'c) option" where
  "collectQuads (Node p c ul ur ll lr d) =
     (case ul of None \<Rightarrow> None | Some nul \<Rightarrow>
     (case ur of None \<Rightarrow> None | Some nur \<Rightarrow>
     (case ll of None \<Rightarrow> None | Some nll \<Rightarrow>
     (case lr of None \<Rightarrow> None | Some nlr \<Rightarrow>
        Some (\<lambda>r. case r of UPPER_LEFT \<Rightarrow> m_compare nul | UPPER_RIGHT \<Rightarrow> m_compare nur
                     | LOWER_LEFT \<Rightarrow> m_compare nll | LOWER_RIGHT \<Rightarrow> m_compare nlr)))))"

text \<open>
  The references collected above point into the children, so what
  \<^verbatim>\<open>buildQuadrantsFromData\<close> writes through them lands in the children's
  \<^verbatim>\<open>m_compare\<close>.
\<close>

fun writeQuads :: "('v, 'c) Node \<Rightarrow> (RegionCode \<Rightarrow> 'c) \<Rightarrow> ('v, 'c) Node" where
  "writeQuads (Node p c ul ur ll lr d) mapQuads =
     Node p c
       (case ul of None \<Rightarrow> None | Some n \<Rightarrow> Some (setCompare n (mapQuads UPPER_LEFT)))
       (case ur of None \<Rightarrow> None | Some n \<Rightarrow> Some (setCompare n (mapQuads UPPER_RIGHT)))
       (case ll of None \<Rightarrow> None | Some n \<Rightarrow> Some (setCompare n (mapQuads LOWER_LEFT)))
       (case lr of None \<Rightarrow> None | Some n \<Rightarrow> Some (setCompare n (mapQuads LOWER_RIGHT)))
       d"

text \<open>
  The loop that builds the children: a null slot gets a new node, and every slot gets the
  search space computed for its key.
\<close>

fun createChildren ::
  "('v, 'c) SearchPredicate \<Rightarrow> ('v, 'c) Node \<Rightarrow> (RegionCode \<Rightarrow> 'c) \<Rightarrow> ('v, 'c) Node" where
  "createChildren pr (Node p c ul ur ll lr d) mapQuads =
     Node p c
       (Some (setCompare (case ul of None \<Rightarrow> newNode pr | Some n \<Rightarrow> n) (mapQuads UPPER_LEFT)))
       (Some (setCompare (case ur of None \<Rightarrow> newNode pr | Some n \<Rightarrow> n) (mapQuads UPPER_RIGHT)))
       (Some (setCompare (case ll of None \<Rightarrow> newNode pr | Some n \<Rightarrow> n) (mapQuads LOWER_LEFT)))
       (Some (setCompare (case lr of None \<Rightarrow> newNode pr | Some n \<Rightarrow> n) (mapQuads LOWER_RIGHT)))
       d"

text \<open>\<^verbatim>\<open>for (auto thisVal : setAllData) add(thisVal);\<close> in the order of the set.\<close>

definition addAll :: "('v::linorder, 'c) Node \<Rightarrow> 'v fset \<Rightarrow> ('v, 'c) Node" where
  "addAll n vals = fold (\<lambda>thisVal m. add m thisVal) (sorted_list_of_fset vals) n"

text \<open>
  The loop that rebalances every non-null child, in key order; \<open>f\<close> is the recursive call.
\<close>

fun rebalanceSlot ::
  "(('v, 'c) Node \<Rightarrow> error + ('v, 'c) Node) \<Rightarrow> ('v, 'c) Node option \<Rightarrow> error + ('v, 'c) Node option" where
  "rebalanceSlot f None = Inr None"
| "rebalanceSlot f (Some n) = (case f n of Inl e \<Rightarrow> Inl e | Inr n' \<Rightarrow> Inr (Some n'))"

fun rebalanceChildren ::
  "(('v, 'c) Node \<Rightarrow> error + ('v, 'c) Node) \<Rightarrow> ('v, 'c) Node \<Rightarrow> error + ('v, 'c) Node" where
  "rebalanceChildren f (Node p c ul ur ll lr d) =
     (case rebalanceSlot f ul of Inl e \<Rightarrow> Inl e | Inr ul' \<Rightarrow>
     (case rebalanceSlot f ur of Inl e \<Rightarrow> Inl e | Inr ur' \<Rightarrow>
     (case rebalanceSlot f ll of Inl e \<Rightarrow> Inl e | Inr ll' \<Rightarrow>
     (case rebalanceSlot f lr of Inl e \<Rightarrow> Inl e | Inr lr' \<Rightarrow>
        Inr (Node p c ul' ur' ll' lr' d)))))"

text \<open>
  \<^verbatim>\<open>Node::rebalance\<close>. The first argument bounds the depth of the recursion: a call
  that would need a deeper stack yields \<open>StackExhausted\<close>.
\<close>

primrec rebalance :: "nat \<Rightarrow> ('v::linorder, 'c) Node \<Rightarrow> error + ('v, 'c) Node" where
  "rebalance 0 n = Inl StackExhausted"
| "rebalance (Suc depth) n =
     (case m_predicate n of
        None \<Rightarrow> Inr n
      | Some pr \<Rightarrow>
          let setAllData = ffilter (satisfies pr (m_compare n)) (getAllChildValues n);
              n1 = setData n {||}
          in
          if hasChildren n1 then
            if fcard setAllData \<le> g_minDataSize
            then Inr (setData (deleteChildren n1) setAllData)
            else
              (case collectQuads n1 of
                 None \<Rightarrow> Inl NullDereference
               | Some refs \<Rightarrow>
                   let mapQuads = buildQuadrantsFromData pr (m_compare n1) setAllData refs;
                       n2 = writeQuads n1 mapQuads
                   in
                   if shouldSubdivide pr setAllData mapQuads
                   then rebalanceChildren (rebalance depth) (addAll n2 setAllData)
                   else Inr (setData (deleteChildren n2) setAllData))
          else
            if fcard setAllData \<le> g_minDataSize
            then Inr (setData n1 setAllData)
            else
              let mapQuads = buildQuadrantsFromData pr (m_compare n1) setAllData (\<lambda>r. nilCompare pr)
              in
              if shouldSubdivide pr setAllData mapQuads
              then rebalanceChildren (rebalance depth)
                     (addAll (createChildren pr n1 mapQuads) setAllData)
              else Inr (setData n1 setAllData))"

text \<open>\<^verbatim>\<open>Node::Node(const Node&)\<close>, on nodes held by value.\<close>

fun copyNode :: "('v, 'c) Node \<Rightarrow> ('v, 'c) Node" where
  "copyNode (Node p c ul ur ll lr d) =
     Node p c
       (case ul of None \<Rightarrow> None | Some n \<Rightarrow> Some (copyNode n))
       (case ur of None \<Rightarrow> None | Some n \<Rightarrow> Some (copyNode n))
       (case ll of None \<Rightarrow> None | Some n \<Rightarrow> Some (copyNode n))
       (case lr of None \<Rightarrow> None | Some n \<Rightarrow> Some (copyNode n))
       d"

subsection \<open>The tree\<close>

text \<open>\<^verbatim>\<open>SearchTree2D\<close>: the predicate pointer and the root pointer.\<close>

record ('v, 'c) SearchTree2D =
  tree_predicate :: "('v, 'c) SearchPredicate option"
  m_tree :: "('v, 'c) Node option"

text \<open>
  \<^verbatim>\<open>SearchTree2D(Predicate*)\<close>; the default constructor is \<open>newTree None\<close>.
\<close>

definition newTree :: "('v, 'c) SearchPredicate option \<Rightarrow> ('v, 'c) SearchTree2D" where
  "newTree pred = \<lparr>tree_predicate = pred, m_tree = None\<rparr>"

definition tree_setPredicate ::
  "('v, 'c) SearchTree2D \<Rightarrow> ('v, 'c) SearchPredicate option \<Rightarrow> ('v, 'c) SearchTree2D" where
  "tree_setPredicate t pred =
     \<lparr>tree_predicate = pred,
      m_tree = (case m_tree t of None \<Rightarrow> None | Some n \<Rightarrow> Some (setPredicate n pred))\<rparr>"

definition tree_add :: "('v, 'c) SearchTree2D \<Rightarrow> 'v \<Rightarrow> ('v, 'c) SearchTree2D" where
  "tree_add t val =
     (case tree_predicate t of
        None \<Rightarrow> t
      | Some pr \<Rightarrow>
          t\<lparr>m_tree := Some (add (case m_tree t of None \<Rightarrow> newNode pr | Some n \<Rightarrow> n) val)\<rparr>)"

definition tree_remove :: "('v, 'c) SearchTree2D \<Rightarrow> 'v \<Rightarrow> ('v, 'c) SearchTree2D" where
  "tree_remove t val =
     (case m_tree t of None \<Rightarrow> t | Some n \<Rightarrow> t\<lparr>m_tree := Some (remove n val)\<rparr>)"

definition tree_clear :: "('v, 'c) SearchTree2D \<Rightarrow> ('v, 'c) SearchTree2D" where
  "tree_clear t = (case m_tree t of None \<Rightarrow> t | Some n \<Rightarrow> t\<lparr>m_tree := Some (clear n)\<rparr>)"

definition tree_getNearbyValues :: "('v, 'c) SearchTree2D \<Rightarrow> 'c \<Rightarrow> 'v fset" where
  "tree_getNearbyValues t compare =
     (case m_tree t of None \<Rightarrow> {||} | Some n \<Rightarrow> getNearbyValues n compare)"

definition tree_rebalance ::
  "nat \<Rightarrow> ('v::linorder, 'c) SearchTree2D \<Rightarrow> error + ('v, 'c) SearchTree2D" where
  "tree_rebalance depth t =
     (case m_tree t of
        None \<Rightarrow> Inr t
      | Some n \<Rightarrow>
          (case rebalance depth (buildRootRegion n) of
             Inl e \<Rightarrow> Inl e
           | Inr n' \<Rightarrow> Inr (t\<lparr>m_tree := Some n'\<rparr>)))"

text \<open>
  The copy constructor, and the move constructor with the \<^verbatim>\<open>swap\<close> it is made of:
  the new tree starts as the default tree and trades both pointers with the source. The pair
  is (new tree, source afterwards).
\<close>

definition tree_copy :: "('v, 'c) SearchTree2D \<Rightarrow> ('v, 'c) SearchTree2D" where
  "tree_copy otherTree =
     \<lparr>tree_predicate = tree_predicate otherTree,
      m_tree = (case m_tree otherTree of None \<Rightarrow> None | Some n \<Rightarrow> Some (copyNode n))\<rparr>"

definition tree_swap ::
  "('v, 'c) SearchTree2D \<Rightarrow> ('v, 'c) SearchTree2D \<Rightarrow> ('v, 'c) SearchTree2D \<times> ('v, 'c) SearchTree2D" where
  "tree_swap left right =
     (\<lparr>tree_predicate = tree_predicate right, m_tree = m_tree right\<rparr>,
      \<lparr>tree_predicate = tree_predicate left, m_tree = m_tree left\<rparr>)"

definition tree_move ::
  "('v, 'c) SearchTree2D \<Rightarrow> ('v, 'c) SearchTree2D \<times> ('v, 'c) SearchTree2D" where
  "tree_move otherTree = tree_swap (newTree None) otherTree"

text \<open>All values held anywhere in the tree.\<close>

definition tree_allValues :: "('v, 'c) SearchTree2D \<Rightarrow> 'v fset" where
  "tree_allValues t = (case m_tree t of None \<Rightarrow> {||} | Some n \<Rightarrow> getAllChildValues n)"


section \<open>The copy and move constructors on a heap\<close>

text \<open>
  Copying is where ownership matters, so the constructors are also modelled on an explicit
  store. A node is a cell of the store, a \<^verbatim>\<open>Node*\<close> is the index of a cell (\<open>None\<close> is
  null), and \<^verbatim>\<open>new\<close> appends a cell. A \<^verbatim>\<open>Predicate*\<close> is an index into the
  predicates that the caller owns.
\<close>

record ('v, 'c) cell =
  c_predicate :: "nat option"
  c_compare :: 'c
  c_mapRegions :: "RegionCode \<Rightarrow> nat option"
  c_data :: "'v fset"

type_synonym ('v, 'c) heap = "('v, 'c) cell list"

text \<open>\<^verbatim>\<open>SearchTree2D\<close> on the store: its two pointers.\<close>

record treeHandle =
  h_predicate :: "nat option"
  h_tree :: "nat option"

text \<open>
  \<^verbatim>\<open>Node::Node(const Node&)\<close>. The initialisers copy predicate pointer, search space
  and data and null the four slots; the loop then visits the slots of \<^verbatim>\<open>other\<close> in key
  order and stores \<^verbatim>\<open>new Node(*child)\<close> in the slot of the same key. The first argument
  of \<open>h_copyNode\<close> bounds the depth of the recursion; \<open>None\<close> is a copy that does not
  return (depth exhausted, or a pointer outside the store).
\<close>

definition copyInit :: "('v, 'c) cell \<Rightarrow> ('v, 'c) cell" where
  "copyInit other =
     \<lparr>c_predicate = c_predicate other, c_compare = c_compare other,
      c_mapRegions = (\<lambda>r. None), c_data = c_data other\<rparr>"

definition setRegion :: "('v, 'c) heap \<Rightarrow> nat \<Rightarrow> RegionCode \<Rightarrow> nat \<Rightarrow> ('v, 'c) heap" where
  "setRegion h this r a = h[this := (h ! this)\<lparr>c_mapRegions := (c_mapRegions (h ! this))(r \<mapsto> a)\<rparr>]"

primrec h_copyChildren ::
  "(('v, 'c) heap \<Rightarrow> nat \<Rightarrow> (('v, 'c) heap \<times> nat) option) \<Rightarrow> nat \<Rightarrow> nat \<Rightarrow> RegionCode list
     \<Rightarrow> ('v, 'c) heap \<Rightarrow> ('v, 'c) heap option" where
  "h_copyChildren f other this [] h = Some h"
| "h_copyChildren f other this (r # rs) h =
     (case c_mapRegions (h ! other) r of
        None \<Rightarrow> h_copyChildren f other this rs h
      | Some child \<Rightarrow>
          (case f h child of
             None \<Rightarrow> None
           | Some (h1, a) \<Rightarrow> h_copyChildren f other this rs (setRegion h1 this r a)))"

primrec h_copyNode :: "nat \<Rightarrow> ('v, 'c) heap \<Rightarrow> nat \<Rightarrow> (('v, 'c) heap \<times> nat) option" where
  "h_copyNode 0 h other = None"
| "h_copyNode (Suc depth) h other =
     (if other < length h
      then (case h_copyChildren (h_copyNode depth) other (length h) regionCodes
                   (h @ [copyInit (h ! other)]) of
              None \<Rightarrow> None
            | Some h' \<Rightarrow> Some (h', length h))
      else None)"

text \<open>
  \<^verbatim>\<open>SearchTree2D(const SearchTree2D&)\<close>, \<^verbatim>\<open>swap\<close> and
  \<^verbatim>\<open>SearchTree2D(SearchTree2D&&)\<close>. The move constructor touches no node: it trades the
  pointers of a default-constructed tree with those of the source. The pair is (new tree,
  source afterwards).
\<close>

definition h_copyTree ::
  "nat \<Rightarrow> ('v, 'c) heap \<Rightarrow> treeHandle \<Rightarrow> (('v, 'c) heap \<times> treeHandle) option" where
  "h_copyTree depth h otherTree =
     (case h_tree otherTree of
        None \<Rightarrow> Some (h, \<lparr>h_predicate = h_predicate otherTree, h_tree = None\<rparr>)
      | Some root \<Rightarrow>
          (case h_copyNode depth h root of
             None \<Rightarrow> None
           | Some (h', a) \<Rightarrow> Some (h', \<lparr>h_predicate = h_predicate otherTree, h_tree = Some a\<rparr>)))"

definition h_swap :: "treeHandle \<Rightarrow> treeHandle \<Rightarrow> treeHandle \<times> treeHandle" where
  "h_swap left right =
     (\<lparr>h_predicate = h_predicate right, h_tree = h_tree right\<rparr>,
      \<lparr>h_predicate = h_predicate left, h_tree = h_tree left\<rparr>)"

definition h_moveTree :: "treeHandle \<Rightarrow> treeHandle \<times> treeHandle" where
  "h_moveTree otherTree = h_swap \<lparr>h_predicate = None, h_tree = None\<rparr> otherTree"

text \<open>\<^verbatim>\<open>Node::getNearbyValues\<close> and \<^verbatim>\<open>SearchTree2D::getNearbyValues\<close> on the store.\<close>

primrec h_childValues ::
  "(nat \<Rightarrow> 'v fset option) \<Rightarrow> ('v, 'c) cell \<Rightarrow> RegionCode list \<Rightarrow> 'v fset \<Rightarrow> 'v fset option" where
  "h_childValues f node [] nearbyVals = Some nearbyVals"
| "h_childValues f node (r # rs) nearbyVals =
     (case c_mapRegions node r of
        None \<Rightarrow> h_childValues f node rs nearbyVals
      | Some child \<Rightarrow>
          (case f child of
             None \<Rightarrow> None
           | Some childVals \<Rightarrow> h_childValues f node rs (nearbyVals |\<union>| childVals)))"

primrec h_getNearbyValues ::
  "nat \<Rightarrow> (nat \<Rightarrow> ('v, 'c) SearchPredicate) \<Rightarrow> ('v, 'c) heap \<Rightarrow> nat \<Rightarrow> 'c \<Rightarrow> 'v fset option" where
  "h_getNearbyValues 0 preds h a compare = None"
| "h_getNearbyValues (Suc depth) preds h a compare =
     (if a < length h
      then
        (case (if list_ex (\<lambda>r. c_mapRegions (h ! a) r \<noteq> None) regionCodes
               then h_childValues (\<lambda>child. h_getNearbyValues depth preds h child compare)
                      (h ! a) regionCodes {||}
               else Some {||}) of
           None \<Rightarrow> None
         | Some nearbyVals \<Rightarrow>
             Some (nearbyVals |\<union>|
                   (case c_predicate (h ! a) of
                      None \<Rightarrow> {||}
                    | Some p \<Rightarrow>
                        if overlaps (preds p) (c_compare (h ! a)) compare
                        then c_data (h ! a) else {||})))
      else None)"

definition h_tree_getNearbyValues ::
  "nat \<Rightarrow> (nat \<Rightarrow> ('v, 'c) SearchPredicate) \<Rightarrow> ('v, 'c) heap \<Rightarrow> treeHandle \<Rightarrow> 'c
     \<Rightarrow> 'v fset option" where
  "h_tree_getNearbyValues depth preds h t compare =
     (case h_tree t of None \<Rightarrow> Some {||} | Some root \<Rightarrow> h_getNearbyValues depth preds h root compare)"

text \<open>
  The cell at an address represents a node held by value; \<open>footprint\<close> is the set of
  addresses such a representation reads, and \<open>height\<close> the depth of a subtree.
\<close>

fun repr ::
  "(nat \<Rightarrow> ('v, 'c) SearchPredicate) \<Rightarrow> ('v, 'c) heap \<Rightarrow> ('v, 'c) Node \<Rightarrow> nat \<Rightarrow> bool" where
  "repr preds h (Node p c ul ur ll lr d) a =
     (a < length h
      \<and> map_option preds (c_predicate (h ! a)) = p \<and> c_compare (h ! a) = c \<and> c_data (h ! a) = d
      \<and> (case ul of None \<Rightarrow> c_mapRegions (h ! a) UPPER_LEFT = None
          | Some n \<Rightarrow> (case c_mapRegions (h ! a) UPPER_LEFT of None \<Rightarrow> False
                        | Some b \<Rightarrow> repr preds h n b))
      \<and> (case ur of None \<Rightarrow> c_mapRegions (h ! a) UPPER_RIGHT = None
          | Some n \<Rightarrow> (case c_mapRegions (h ! a) UPPER_RIGHT of None \<Rightarrow> False
                        | Some b \<Rightarrow> repr preds h n b))
      \<and> (case ll of None \<Rightarrow> c_mapRegions (h ! a) LOWER_LEFT = None
          | Some n \<Rightarrow> (case c_mapRegions (h ! a) LOWER_LEFT of None \<Rightarrow> False
                        | Some b \<Rightarrow> repr preds h n b))
      \<and> (case lr of None \<Rightarrow> c_mapRegions (h ! a) LOWER_RIGHT = None
          | Some n \<Rightarrow> (case c_mapRegions (h ! a) LOWER_RIGHT of None \<Rightarrow> False
                        | Some b \<Rightarrow> repr preds h n b)))"

fun footprint :: "('v, 'c) heap \<Rightarrow> ('v, 'c) Node \<Rightarrow> nat \<Rightarrow> nat set" where
  "footprint h (Node p c ul ur ll lr d) a =
     insert a
       ((case ul of None \<Rightarrow> {}
         | Some n \<Rightarrow> (case c_mapRegions (h ! a) UPPER_LEFT of None \<Rightarrow> {}
                       | Some b \<Rightarrow> footprint h n b))
        \<union> (case ur of None \<Rightarrow> {}
         | Some n \<Rightarrow> (case c_mapRegions (h ! a) UPPER_RIGHT of None \<Rightarrow> {}
                       | Some b \<Rightarrow> footprint h n b))
        \<union> (case ll of None \<Rightarrow> {}
         | Some n \<Rightarrow> (case c_mapRegions (h ! a) LOWER_LEFT of None \<Rightarrow> {}
                       | Some b \<Rightarrow> footprint h n b))
        \<union> (case lr of None \<Rightarrow> {}
         | Some n \<Rightarrow> (case c_mapRegions (h ! a) LOWER_RIGHT of None \<Rightarrow> {}
                       | Some b \<Rightarrow> footprint h n b)))"

fun height :: "('v, 'c) Node \<Rightarrow> nat" where
  "height (Node p c ul ur ll lr d) =
     Suc (max (max (case ul of None \<Rightarrow> 0 | Some n \<Rightarrow> height n)
                   (case ur of None \<Rightarrow> 0 | Some n \<Rightarrow> height n))
              (max (case ll of None \<Rightarrow> 0 | Some n \<Rightarrow> height n)
                   (case lr of None \<Rightarrow> 0 | Some n \<Rightarrow> height n)))"

definition reprSlot ::
  "(nat \<Rightarrow> ('v, 'c) SearchPredicate) \<Rightarrow> ('v, 'c) heap \<Rightarrow> ('v, 'c) Node option \<Rightarrow> nat option \<Rightarrow> bool" where
  "reprSlot preds h s po =
     (case s of None \<Rightarrow> po = None
      | Some n \<Rightarrow> (case po of None \<Rightarrow> False | Some b \<Rightarrow> repr preds h n b))"

definition slotFootprint :: "('v, 'c) heap \<Rightarrow> ('v, 'c) Node option \<Rightarrow> nat option \<Rightarrow> nat set" where
  "slotFootprint h s po =
     (case s of None \<Rightarrow> {}
      | Some n \<Rightarrow> (case po of None \<Rightarrow> {} | Some b \<Rightarrow> footprint h n b))"

definition reprTree ::
  "(nat \<Rightarrow> ('v, 'c) SearchPredicate) \<Rightarrow> ('v, 'c) heap \<Rightarrow> ('v, 'c) SearchTree2D \<Rightarrow> treeHandle \<Rightarrow> bool" where
  "reprTree preds h t ht =
     (map_option preds (h_predicate ht) = tree_predicate t
      \<and> reprSlot preds h (m_tree t) (h_tree ht))"

definition treeFootprint :: "('v, 'c) heap \<Rightarrow> ('v, 'c) SearchTree2D \<Rightarrow> treeHandle \<Rightarrow> nat set" where
  "treeFootprint h t ht = slotFootprint h (m_tree t) (h_tree ht)"

definition treeHeight :: "('v, 'c) SearchTree2D \<Rightarrow> nat" where
  "treeHeight t = (case m_tree t of None \<Rightarrow> 0 | Some n \<Rightarrow> height n)"

text \<open>
  The state of the copying loop after the slots \<open>seen\<close>: the cells below the new node are
  those of the store before the copy, the new node has the fields of the original, its
  unseen slots are null and its seen slots hold copies that lie above it. \<open>copySpec\<close> is
  what a recursive call of the copy constructor delivers.
\<close>

definition copyInv ::
  "(nat \<Rightarrow> ('v, 'c) SearchPredicate) \<Rightarrow> ('v, 'c) heap \<Rightarrow> ('v, 'c) Node \<Rightarrow> nat
     \<Rightarrow> RegionCode set \<Rightarrow> ('v, 'c) heap \<Rightarrow> bool" where
  "copyInv preds h n this seen hc =
     (this < length hc \<and> (\<forall>x < this. hc ! x = h ! x)
      \<and> map_option preds (c_predicate (hc ! this)) = m_predicate n
      \<and> c_compare (hc ! this) = m_compare n \<and> c_data (hc ! this) = m_data n
      \<and> (\<forall>r. r \<notin> seen \<longrightarrow> c_mapRegions (hc ! this) r = None)
      \<and> (\<forall>r \<in> seen. reprSlot preds hc (m_mapRegions n r) (c_mapRegions (hc ! this) r)
            \<and> slotFootprint hc (m_mapRegions n r) (c_mapRegions (hc ! this) r)
                 \<subseteq> {this<..<length hc}))"

definition copySpec :: "(nat \<Rightarrow> ('v, 'c) SearchPredicate) \<Rightarrow> nat \<Rightarrow> ('v, 'c) Node \<Rightarrow> bool" where
  "copySpec preds k m =
     (\<forall>hx b. repr preds hx m b \<longrightarrow>
        (\<exists>h1. h_copyNode k hx b = Some (h1, length hx) \<and> length hx < length h1
           \<and> (\<forall>x < length hx. h1 ! x = hx ! x)
           \<and> repr preds h1 m (length hx)
           \<and> footprint h1 m (length hx) \<subseteq> {length hx..<length h1}))"

section \<open>Auxiliary notions\<close>

subsection \<open>Reading the four slots uniformly\<close>

text \<open>
  The values a slot contributes to a union, the routing step of \<open>add\<close> for one child, and
  the test that decides \<^verbatim>\<open>wasAdded\<close> for one slot.
\<close>

definition slotVals :: "(('v, 'c) Node \<Rightarrow> 'a fset) \<Rightarrow> ('v, 'c) Node option \<Rightarrow> 'a fset" where
  "slotVals f s = (case s of None \<Rightarrow> {||} | Some n \<Rightarrow> f n)"

definition route :: "('v, 'c) SearchPredicate \<Rightarrow> 'v \<Rightarrow> ('v, 'c) Node \<Rightarrow> ('v, 'c) Node" where
  "route pr v n = (if satisfies pr (m_compare n) v then add n v else n)"

definition accepts :: "('v, 'c) SearchPredicate \<Rightarrow> 'v \<Rightarrow> ('v, 'c) Node option \<Rightarrow> bool" where
  "accepts pr v s = (case s of None \<Rightarrow> False | Some n \<Rightarrow> satisfies pr (m_compare n) v)"

subsection \<open>A one-dimensional predicate for concrete trees\<close>

text \<open>
  Values are natural numbers, a search space is a half-open interval given by its start and
  its length, the root always spans \<open>[0, 16)\<close>, and the four quadrants are the four quarters
  of the parent's interval.
\<close>

definition quarters :: "(nat, nat \<times> nat) SearchPredicate" where
  "quarters = \<lparr>
     nilCompare = (0, 1),
     buildRegionFromData = (\<lambda>S. (0, 16)),
     buildQuadrantsFromData = (\<lambda>(lo, len) S quads r.
        case r of UPPER_LEFT \<Rightarrow> (lo, len div 4)
                | UPPER_RIGHT \<Rightarrow> (lo + len div 4, len div 4)
                | LOWER_LEFT \<Rightarrow> (lo + 2 * (len div 4), len div 4)
                | LOWER_RIGHT \<Rightarrow> (lo + 3 * (len div 4), len div 4)),
     satisfies = (\<lambda>(lo, len) v. lo \<le> v \<and> v < lo + len),
     overlaps = (\<lambda>(a, l) (b, m). a < b + m \<and> b < a + l) \<rparr>"

definition quartersLeaf :: "nat \<times> nat \<Rightarrow> nat fset \<Rightarrow> (nat, nat \<times> nat) Node" where
  "quartersLeaf c d = Node (Some quarters) c None None None None d"

definition quartersRoot :: "(nat, nat \<times> nat) Node" where
  "quartersRoot =
     Node (Some quarters) (0, 16)
       (Some (quartersLeaf (0, 4) {|2|})) (Some (quartersLeaf (4, 4) {|6|}))
       (Some (quartersLeaf (8, 4) {|10|})) (Some (quartersLeaf (12, 4) {|14|})) {||}"

subsection \<open>Invariants of the reachable trees\<close>

text \<open>
  Every node of the subtree holds the predicate pointer \<open>P\<close>: the constructors hand the
  tree's pointer down and \<^verbatim>\<open>setPredicate\<close> overwrites it everywhere.
\<close>

fun samePredicate :: "('v, 'c) SearchPredicate option \<Rightarrow> ('v, 'c) Node \<Rightarrow> bool" where
  "samePredicate P (Node p c ul ur ll lr d) =
     (p = P
      \<and> (case ul of None \<Rightarrow> True | Some n \<Rightarrow> samePredicate P n)
      \<and> (case ur of None \<Rightarrow> True | Some n \<Rightarrow> samePredicate P n)
      \<and> (case ll of None \<Rightarrow> True | Some n \<Rightarrow> samePredicate P n)
      \<and> (case lr of None \<Rightarrow> True | Some n \<Rightarrow> samePredicate P n))"

text \<open>
  Every node of the subtree has its four slots all null or all non-null.
\<close>

fun allOrNothing :: "('v, 'c) Node \<Rightarrow> bool" where
  "allOrNothing (Node p c ul ur ll lr d) =
     (((ul = None \<and> ur = None \<and> ll = None \<and> lr = None)
        \<or> (ul \<noteq> None \<and> ur \<noteq> None \<and> ll \<noteq> None \<and> lr \<noteq> None))
      \<and> (case ul of None \<Rightarrow> True | Some n \<Rightarrow> allOrNothing n)
      \<and> (case ur of None \<Rightarrow> True | Some n \<Rightarrow> allOrNothing n)
      \<and> (case ll of None \<Rightarrow> True | Some n \<Rightarrow> allOrNothing n)
      \<and> (case lr of None \<Rightarrow> True | Some n \<Rightarrow> allOrNothing n))"

definition slotAll :: "(('v, 'c) Node \<Rightarrow> bool) \<Rightarrow> ('v, 'c) Node option \<Rightarrow> bool" where
  "slotAll f s = (case s of None \<Rightarrow> True | Some n \<Rightarrow> f n)"

definition treeInvariant :: "('v, 'c) SearchTree2D \<Rightarrow> bool" where
  "treeInvariant t =
     (case m_tree t of None \<Rightarrow> True
      | Some n \<Rightarrow> samePredicate (tree_predicate t) n \<and> allOrNothing n)"

text \<open>
  The trees a client can build: the constructors and every public operation, applied to trees
  built before. A call of \<^verbatim>\<open>rebalance\<close> that does not return yields no tree. The move
  constructor and the assignment operator are \<open>tree_swap\<close> with a new or a copied tree.
\<close>

inductive reachable :: "('v::linorder, 'c) SearchTree2D \<Rightarrow> bool" where
  r_new: "reachable (newTree pred)"
| r_setPredicate: "reachable t \<Longrightarrow> reachable (tree_setPredicate t pred)"
| r_add: "reachable t \<Longrightarrow> reachable (tree_add t val)"
| r_remove: "reachable t \<Longrightarrow> reachable (tree_remove t val)"
| r_clear: "reachable t \<Longrightarrow> reachable (tree_clear t)"
| r_rebalance: "reachable t \<Longrightarrow> tree_rebalance depth t = Inr t' \<Longrightarrow> reachable t'"
| r_copy: "reachable t \<Longrightarrow> reachable (tree_copy t)"
| r_swap_left: "reachable left \<Longrightarrow> reachable right \<Longrightarrow> reachable (fst (tree_swap left right))"
| r_swap_right: "reachable left \<Longrightarrow> reachable right \<Longrightarrow> reachable (snd (tree_swap left right))"

text \<open>
  What \<^verbatim>\<open>Node::rebalance\<close> leaves when the node ends as a leaf: no children, and the
  values of the subtree that satisfy the node's search space as its local set.
\<close>

definition leafOutcome :: "('v, 'c) SearchPredicate \<Rightarrow> ('v, 'c) Node \<Rightarrow> ('v, 'c) Node" where
  "leafOutcome pr n =
     setData (deleteChildren n) (ffilter (satisfies pr (m_compare n)) (getAllChildValues n))"

text \<open>
  The set \<^verbatim>\<open>setAllData\<close> of \<^verbatim>\<open>Node::rebalance\<close> after pruning, and the
  quadrant search spaces \<^verbatim>\<open>mapQuads\<close> it hands to \<^verbatim>\<open>shouldSubdivide\<close>
  (\<open>None\<close> when collecting the references dereferences a null slot).
\<close>

definition survivingData :: "('v, 'c) SearchPredicate \<Rightarrow> ('v, 'c) Node \<Rightarrow> 'v fset" where
  "survivingData pr n = ffilter (satisfies pr (m_compare n)) (getAllChildValues n)"

definition candidateQuads ::
  "('v, 'c) SearchPredicate \<Rightarrow> ('v, 'c) Node \<Rightarrow> (RegionCode \<Rightarrow> 'c) option" where
  "candidateQuads pr n =
     (if hasChildren n
      then map_option (buildQuadrantsFromData pr (m_compare n) (survivingData pr n)) (collectQuads n)
      else Some (buildQuadrantsFromData pr (m_compare n) (survivingData pr n) (\<lambda>r. nilCompare pr)))"

subsection \<open>Where the values of a subtree sit\<close>

text \<open>
  All nodes of a subtree, the node itself first; \<open>slotNodes\<close> is the same for a slot.
\<close>

fun subnodes :: "('v, 'c) Node \<Rightarrow> ('v, 'c) Node list" where
  "subnodes (Node p c ul ur ll lr d) =
     Node p c ul ur ll lr d
       # (case ul of None \<Rightarrow> [] | Some n \<Rightarrow> subnodes n)
       @ (case ur of None \<Rightarrow> [] | Some n \<Rightarrow> subnodes n)
       @ (case ll of None \<Rightarrow> [] | Some n \<Rightarrow> subnodes n)
       @ (case lr of None \<Rightarrow> [] | Some n \<Rightarrow> subnodes n)"

definition slotNodes :: "('v, 'c) Node option \<Rightarrow> ('v, 'c) Node set" where
  "slotNodes s = (case s of None \<Rightarrow> {} | Some n \<Rightarrow> set (subnodes n))"

text \<open>
  A value is held by a slot when the slot's child accepts it and has it in its subtree; it
  is placed in a node when the node's own set or one of its slots holds it. This is what
  \<^verbatim>\<open>add\<close> establishes for the value it inserts.
\<close>

definition held :: "('v, 'c) SearchPredicate \<Rightarrow> 'v \<Rightarrow> ('v, 'c) Node option \<Rightarrow> bool" where
  "held pr v s =
     (case s of None \<Rightarrow> False
      | Some m \<Rightarrow> satisfies pr (m_compare m) v \<and> v |\<in>| getAllChildValues m)"



subsection \<open>Concrete trees\<close>

text \<open>
  Four values, one per quarter of \<open>[0, 16)\<close>; the tree \<^verbatim>\<open>rebalance\<close> makes of them;
  that tree after \<^verbatim>\<open>setPredicate(nullptr)\<close> and the removal of one value; and a
  predicate whose four quadrants are all the parent's own search space.
\<close>

definition fourValues :: "(nat, nat \<times> nat) SearchTree2D" where
  "fourValues = tree_add (tree_add (tree_add (tree_add (newTree (Some quarters)) 2) 6) 10) 14"

definition rebalancedFour :: "(nat, nat \<times> nat) SearchTree2D" where
  "rebalancedFour = \<lparr>tree_predicate = Some quarters, m_tree = Some quartersRoot\<rparr>"

definition afterUnset :: "(nat, nat \<times> nat) SearchTree2D" where
  "afterUnset = tree_remove (tree_setPredicate rebalancedFour None) 14"

definition undivided :: "(nat, nat \<times> nat) SearchPredicate" where
  "undivided = quarters\<lparr>buildQuadrantsFromData := (\<lambda>c S quads r. c)\<rparr>"

text \<open>
  A leaf of the non-discriminating predicate with more values than \<open>g_minDataSize\<close>; and
  a tree holding one value outside \<open>[0, 16)\<close>, before and after \<^verbatim>\<open>rebalance\<close>.
\<close>

definition crowdedLeaf :: "(nat, nat \<times> nat) Node" where
  "crowdedLeaf = Node (Some undivided) (0, 16) None None None None {|2, 6, 10, 14|}"



text \<open>The store that holds the rebalanced tree of four values, and its handle.\<close>

definition leafCell :: "nat \<times> nat \<Rightarrow> nat fset \<Rightarrow> (nat, nat \<times> nat) cell" where
  "leafCell c d = \<lparr>c_predicate = Some 0, c_compare = c, c_mapRegions = (\<lambda>r. None), c_data = d\<rparr>"

definition quartersHeap :: "(nat, nat \<times> nat) heap" where
  "quartersHeap =
     [\<lparr>c_predicate = Some 0, c_compare = (0, 16),
       c_mapRegions = (\<lambda>r. Some (case r of UPPER_LEFT \<Rightarrow> 1 | UPPER_RIGHT \<Rightarrow> 2
                                     | LOWER_LEFT \<Rightarrow> 3 | LOWER_RIGHT \<Rightarrow> 4)),
       c_data = {||}\<rparr>,
      leafCell (0, 4) {|2|}, leafCell (4, 4) {|6|}, leafCell (8, 4) {|10|}, leafCell (12, 4) {|14|}]"

definition quartersHandle :: treeHandle where
  "quartersHandle = \<lparr>h_predicate = Some 0, h_tree = Some 0\<rparr>"

section \<open>Properties\<close>

subsection \<open>The operations in slot form\<close>

lemma slotVals_simps [simp]:
  "slotVals f None = {||}" "slotVals f (Some n) = f n"
  by (simp_all add: slotVals_def)

lemma in_slotVals: "v |\<in>| slotVals f s \<longleftrightarrow> (\<exists>n. s = Some n \<and> v |\<in>| f n)"
  by (cases s) auto

lemma accepts_simps [simp]:
  "accepts pr v None = False" "accepts pr v (Some n) = satisfies pr (m_compare n) v"
  by (simp_all add: accepts_def)

lemma getAllChildValues_alt:
  "getAllChildValues (Node p c ul ur ll lr d) =
     slotVals getAllChildValues ul |\<union>| slotVals getAllChildValues ur
       |\<union>| slotVals getAllChildValues ll |\<union>| slotVals getAllChildValues lr |\<union>| d"
  by (cases ul; cases ur; cases ll; cases lr) simp_all

lemma getNearbyValues_alt:
  "getNearbyValues (Node p c ul ur ll lr d) q =
     slotVals (\<lambda>n. getNearbyValues n q) ul |\<union>| slotVals (\<lambda>n. getNearbyValues n q) ur
       |\<union>| slotVals (\<lambda>n. getNearbyValues n q) ll |\<union>| slotVals (\<lambda>n. getNearbyValues n q) lr
       |\<union>| (case p of None \<Rightarrow> {||} | Some pr \<Rightarrow> if overlaps pr c q then d else {||})"
  by (cases ul; cases ur; cases ll; cases lr) simp_all

lemma remove_alt:
  "remove (Node p c ul ur ll lr d) v =
     Node p c (map_option (\<lambda>n. remove n v) ul) (map_option (\<lambda>n. remove n v) ur)
       (map_option (\<lambda>n. remove n v) ll) (map_option (\<lambda>n. remove n v) lr) (d |-| {|v|})"
  by (cases ul; cases ur; cases ll; cases lr) simp_all

lemma add_alt:
  "add (Node (Some pr) c ul ur ll lr d) v =
     Node (Some pr) c (map_option (route pr v) ul) (map_option (route pr v) ur)
       (map_option (route pr v) ll) (map_option (route pr v) lr)
       (if accepts pr v ul \<or> accepts pr v ur \<or> accepts pr v ll \<or> accepts pr v lr
        then d else finsert v d)"
  by (cases ul; cases ur; cases ll; cases lr) (simp_all add: route_def)

lemma add_None: "add (Node None c ul ur ll lr d) v = Node None c ul ur ll lr d"
  by simp

lemmas [simp del] = getAllChildValues.simps getNearbyValues.simps remove.simps add.simps

subsection \<open>Queries, removal and insertion\<close>

lemma getNearbyValues_in_all: "v |\<in>| getNearbyValues n q \<Longrightarrow> v |\<in>| getAllChildValues n"
proof (induction n)
  case (Node p c ul ur ll lr d)
  then show ?case
    by (auto simp: getAllChildValues_alt getNearbyValues_alt in_slotVals
             split: option.splits if_splits)
qed

lemma remove_absent: "v |\<notin>| getAllChildValues (remove n v)"
proof (induction n)
  case (Node p c ul ur ll lr d)
  then show ?case
    by (auto simp: getAllChildValues_alt remove_alt in_slotVals)
qed

lemma remove_absent_nearby: "v |\<notin>| getNearbyValues (remove n v) q"
  using getNearbyValues_in_all[of v "remove n v" q] remove_absent[of v n] by blast

lemma remove_noop: "v |\<notin>| getAllChildValues n \<Longrightarrow> remove n v = n"
proof (induction n)
  case (Node p c ul ur ll lr d)
  then show ?case
    by (auto simp: getAllChildValues_alt remove_alt in_slotVals intro!: option.map_ident_strong)
qed

lemma remove_route:
  assumes "\<And>m. s = Some m \<Longrightarrow> v |\<notin>| getAllChildValues m \<Longrightarrow> remove (add m v) v = m"
      and "\<And>m. s = Some m \<Longrightarrow> v |\<notin>| getAllChildValues m"
  shows "map_option (\<lambda>n. remove n v) (map_option (route pr v) s) = s"
  using assms by (cases s) (auto simp: route_def remove_noop)

lemma remove_add: "v |\<notin>| getAllChildValues n \<Longrightarrow> remove (add n v) v = n"
proof (induction n)
  case (Node p c ul ur ll lr d)
  show ?case
  proof (cases p)
    case None
    with Node.prems show ?thesis by (simp add: add_None remove_noop)
  next
    case (Some pr)
    have absent: "v |\<notin>| d"
      "\<And>m. ul = Some m \<Longrightarrow> v |\<notin>| getAllChildValues m"
      "\<And>m. ur = Some m \<Longrightarrow> v |\<notin>| getAllChildValues m"
      "\<And>m. ll = Some m \<Longrightarrow> v |\<notin>| getAllChildValues m"
      "\<And>m. lr = Some m \<Longrightarrow> v |\<notin>| getAllChildValues m"
      using Node.prems by (auto simp: getAllChildValues_alt in_slotVals)
    have "map_option (\<lambda>n. remove n v) (map_option (route pr v) ul) = ul"
         "map_option (\<lambda>n. remove n v) (map_option (route pr v) ur) = ur"
         "map_option (\<lambda>n. remove n v) (map_option (route pr v) ll) = ll"
         "map_option (\<lambda>n. remove n v) (map_option (route pr v) lr) = lr"
      using Node.IH absent by (auto intro!: remove_route)
    with absent(1) Some show ?thesis
      by (simp add: add_alt remove_alt)
  qed
qed

text \<open>
  Claim C9. \<^verbatim>\<open>remove(v)\<close> erases every stored copy of \<open>v\<close>: afterwards \<open>v\<close> is in
  no node's local set and in no child subtree, so it is absent from the transitive membership
  and from the result of every query, for a node and for the whole tree.
\<close>

theorem remove_eliminates_value:
  "v |\<notin>| getAllChildValues (remove n v)
   \<and> (\<forall>q. v |\<notin>| getNearbyValues (remove n v) q)
   \<and> v |\<notin>| tree_allValues (tree_remove t v)
   \<and> (\<forall>q. v |\<notin>| tree_getNearbyValues (tree_remove t v) q)"
  by (simp add: remove_absent remove_absent_nearby tree_allValues_def tree_remove_def
        tree_getNearbyValues_def split: option.splits)

text \<open>
  Claim C7. Removing a value that is stored nowhere leaves the tree as it was; on a tree
  without a root node, removal and rebalancing leave the tree as it was and a query returns
  the empty set. Rebalancing returns at every depth bound, so none of them fails.
\<close>

theorem absent_and_empty_are_noops:
  "(v |\<notin>| tree_allValues t \<longrightarrow> tree_remove t v = t)
   \<and> (m_tree t = None \<longrightarrow> tree_remove t v = t)
   \<and> (m_tree t = None \<longrightarrow> tree_getNearbyValues t q = {||})
   \<and> (m_tree t = None \<longrightarrow> tree_rebalance depth t = Inr t)"
  by (auto simp: tree_allValues_def tree_remove_def tree_getNearbyValues_def tree_rebalance_def
        remove_noop split: option.splits)

theorem absent_and_empty_are_noops_witness:
  "2 |\<notin>| tree_allValues (tree_add (newTree (Some quarters)) 1)
   \<and> tree_remove (tree_add (newTree (Some quarters)) 1) 2 = tree_add (newTree (Some quarters)) 1
   \<and> m_tree (newTree (Some quarters)) = None
   \<and> tree_remove (newTree (Some quarters)) 2 = newTree (Some quarters)
   \<and> tree_getNearbyValues (newTree (Some quarters)) (0, 16) = {||}
   \<and> tree_rebalance 0 (newTree (Some quarters)) = Inr (newTree (Some quarters))"
proof -
  have h1: "2 |\<notin>| tree_allValues (tree_add (newTree (Some quarters)) (1::nat))"
    by (simp add: tree_allValues_def tree_add_def newTree_def newNode_def add_alt
          getAllChildValues_alt)
  have h2: "m_tree (newTree (Some quarters)) = None"
    by (simp add: newTree_def)
  from absent_and_empty_are_noops[of 2 "tree_add (newTree (Some quarters)) 1"]
       absent_and_empty_are_noops[of 2 "newTree (Some quarters)" "(0, 16)" 0] h1 h2
  show ?thesis by blast
qed

text \<open>
  Claim C1. On a node that has a predicate and children, a value that satisfies the search
  space of none of the non-null children is kept in the node's own set, the node's search
  space is unchanged, and every query whose search space overlaps the node's own returns
  the value.
\<close>

theorem add_retains_orphan:
  assumes "m_predicate n = Some pr"
      and "hasChildren n"
      and "\<forall>r c. m_mapRegions n r = Some c \<longrightarrow> \<not> satisfies pr (m_compare c) v"
  shows "v |\<in>| m_data (add n v)
         \<and> m_compare (add n v) = m_compare n
         \<and> (\<forall>q. overlaps pr (m_compare n) q \<longrightarrow> v |\<in>| getNearbyValues (add n v) q)"
proof (cases n)
  case (Node p c ul ur ll lr d)
  have "\<not> accepts pr v ul" "\<not> accepts pr v ur" "\<not> accepts pr v ll" "\<not> accepts pr v lr"
    using assms(3)[rule_format, of UPPER_LEFT] assms(3)[rule_format, of UPPER_RIGHT]
      assms(3)[rule_format, of LOWER_LEFT] assms(3)[rule_format, of LOWER_RIGHT] Node
    by (auto simp: accepts_def split: option.splits)
  with Node assms(1) show ?thesis
    by (simp add: add_alt getNearbyValues_alt)
qed

theorem add_retains_orphan_witness:
  "m_predicate quartersRoot = Some quarters
   \<and> hasChildren quartersRoot
   \<and> 20 |\<in>| m_data (add quartersRoot 20)
   \<and> overlaps quarters (m_compare quartersRoot) (15, 10)
   \<and> 20 |\<in>| getNearbyValues (add quartersRoot 20) (15, 10)"
proof -
  have h1: "m_predicate quartersRoot = Some quarters" by (simp add: quartersRoot_def)
  have h2: "hasChildren quartersRoot" by (simp add: quartersRoot_def)
  have h3: "\<forall>r c. m_mapRegions quartersRoot r = Some c \<longrightarrow> \<not> satisfies quarters (m_compare c) 20"
  proof (intro allI impI)
    fix r c assume "m_mapRegions quartersRoot r = Some c"
    then show "\<not> satisfies quarters (m_compare c) 20"
      by (cases r) (auto simp: quartersRoot_def quartersLeaf_def quarters_def)
  qed
  have h4: "overlaps quarters (m_compare quartersRoot) (15, 10)"
    by (simp add: quartersRoot_def quarters_def)
  from add_retains_orphan[OF h1 h2 h3] h1 h2 h3 h4 show ?thesis by blast
qed

text \<open>
  Claim C5, as stated, fails when the value is already stored: adding it changes nothing
  and removing it takes the stored copy away. Here the tree holds 1; after adding and
  removing 1 the query over \<open>[0, 16)\<close> no longer returns it.
\<close>

theorem add_remove_counterexample:
  "tree_getNearbyValues (tree_remove (tree_add (tree_add (newTree (Some quarters)) 1) 1) 1) (0, 16)
   \<noteq> tree_getNearbyValues (tree_add (newTree (Some quarters)) 1) (0, 16)"
  by (simp add: tree_getNearbyValues_def tree_remove_def tree_add_def newTree_def newNode_def
        add_alt remove_alt getNearbyValues_alt quarters_def fempty_not_finsert)

text \<open>
  Claim C5, amended. For a value that is stored nowhere in the tree, adding it and then
  removing it gives back the same result for every query as before the addition.
\<close>

theorem add_remove_restores_queries:
  assumes "v |\<notin>| tree_allValues t"
  shows "tree_getNearbyValues (tree_remove (tree_add t v) v) q = tree_getNearbyValues t q"
proof (cases "tree_predicate t")
  case None
  with assms show ?thesis
    by (simp add: tree_add_def tree_remove_def tree_allValues_def tree_getNearbyValues_def
          remove_noop split: option.splits)
next
  case (Some pr)
  show ?thesis
  proof (cases "m_tree t")
    case None
    with Some show ?thesis
      by (simp add: tree_add_def tree_remove_def tree_getNearbyValues_def newNode_def
            add_alt remove_alt getNearbyValues_alt)
  next
    case (Some n)
    with assms \<open>tree_predicate t = Some pr\<close> show ?thesis
      by (simp add: tree_add_def tree_remove_def tree_getNearbyValues_def tree_allValues_def
            remove_add)
  qed
qed

theorem add_remove_restores_queries_witness:
  "2 |\<notin>| tree_allValues (tree_add (newTree (Some quarters)) 1)
   \<and> tree_getNearbyValues (tree_remove (tree_add (tree_add (newTree (Some quarters)) 1) 2) 2) (0, 16)
     = tree_getNearbyValues (tree_add (newTree (Some quarters)) 1) (0, 16)"
proof -
  have h: "2 |\<notin>| tree_allValues (tree_add (newTree (Some quarters)) (1::nat))"
    by (simp add: tree_allValues_def tree_add_def newTree_def newNode_def add_alt
          getAllChildValues_alt)
  from add_remove_restores_queries[OF h] h show ?thesis by blast
qed

subsection \<open>Invariants under the node operations\<close>

lemma slotAll_simps [simp]: "slotAll f None" "slotAll f (Some n) = f n"
  by (simp_all add: slotAll_def)

lemma slotAll_map: "slotAll f (map_option g s) = slotAll (\<lambda>n. f (g n)) s"
  by (cases s) simp_all

lemma slotAll_mono: "slotAll f s \<Longrightarrow> (\<And>n. s = Some n \<Longrightarrow> f n \<Longrightarrow> g n) \<Longrightarrow> slotAll g s"
  by (cases s) simp_all

lemma slotAll_I: "(\<And>n. s = Some n \<Longrightarrow> f n) \<Longrightarrow> slotAll f s"
  by (cases s) simp_all

lemma samePredicate_alt:
  "samePredicate P (Node p c ul ur ll lr d) \<longleftrightarrow>
     p = P \<and> slotAll (samePredicate P) ul \<and> slotAll (samePredicate P) ur
           \<and> slotAll (samePredicate P) ll \<and> slotAll (samePredicate P) lr"
  by (simp add: slotAll_def)

lemma allOrNothing_alt:
  "allOrNothing (Node p c ul ur ll lr d) \<longleftrightarrow>
     ((ul = None \<and> ur = None \<and> ll = None \<and> lr = None)
        \<or> (ul \<noteq> None \<and> ur \<noteq> None \<and> ll \<noteq> None \<and> lr \<noteq> None))
     \<and> slotAll allOrNothing ul \<and> slotAll allOrNothing ur
     \<and> slotAll allOrNothing ll \<and> slotAll allOrNothing lr"
  by (simp add: slotAll_def)

lemmas [simp del] = samePredicate.simps allOrNothing.simps

lemma add_m_predicate [simp]: "m_predicate (add n v) = m_predicate n"
  by (cases n; cases "m_predicate n") (simp_all add: add_alt add_None)

lemma add_m_compare [simp]: "m_compare (add n v) = m_compare n"
  by (cases n; cases "m_predicate n") (simp_all add: add_alt add_None)

lemma samePredicate_add: "samePredicate P n \<Longrightarrow> samePredicate P (add n v)"
proof (induction n)
  case (Node p c ul ur ll lr d)
  show ?case
  proof (cases p)
    case None
    with Node.prems show ?thesis by (simp add: add_None)
  next
    case (Some pr)
    with Node show ?thesis
      by (auto simp: add_alt samePredicate_alt slotAll_map route_def elim!: slotAll_mono)
  qed
qed

lemma allOrNothing_add: "allOrNothing n \<Longrightarrow> allOrNothing (add n v)"
proof (induction n)
  case (Node p c ul ur ll lr d)
  show ?case
  proof (cases p)
    case None
    with Node.prems show ?thesis by (simp add: add_None)
  next
    case (Some pr)
    with Node show ?thesis
      by (auto simp: add_alt allOrNothing_alt slotAll_map route_def elim!: slotAll_mono)
  qed
qed

lemma samePredicate_remove: "samePredicate P n \<Longrightarrow> samePredicate P (remove n v)"
proof (induction n)
  case (Node p c ul ur ll lr d)
  then show ?case
    by (auto simp: remove_alt samePredicate_alt slotAll_map elim!: slotAll_mono)
qed

lemma allOrNothing_remove: "allOrNothing n \<Longrightarrow> allOrNothing (remove n v)"
proof (induction n)
  case (Node p c ul ur ll lr d)
  then show ?case
    by (auto simp: remove_alt allOrNothing_alt slotAll_map elim!: slotAll_mono)
qed

lemma setPredicate_alt:
  "setPredicate (Node p c ul ur ll lr d) P =
     Node P c (map_option (\<lambda>n. setPredicate n P) ul) (map_option (\<lambda>n. setPredicate n P) ur)
       (map_option (\<lambda>n. setPredicate n P) ll) (map_option (\<lambda>n. setPredicate n P) lr) d"
  by (cases ul; cases ur; cases ll; cases lr) simp_all

lemmas [simp del] = setPredicate.simps

lemma samePredicate_setPredicate: "samePredicate P (setPredicate n P)"
proof (induction n)
  case (Node p c ul ur ll lr d)
  then show ?case
    by (auto simp: setPredicate_alt samePredicate_alt slotAll_map intro!: slotAll_I)
qed

lemma allOrNothing_setPredicate: "allOrNothing n \<Longrightarrow> allOrNothing (setPredicate n P)"
proof (induction n)
  case (Node p c ul ur ll lr d)
  then show ?case
    by (auto simp: setPredicate_alt allOrNothing_alt slotAll_map elim!: slotAll_mono)
qed

lemma copyNode_id: "copyNode n = n"
  by (induction n) (auto intro!: option.map_ident_strong simp flip: map_option_case)

subsection \<open>Unfolding rebalance\<close>

lemma setData_sel [simp]:
  "m_predicate (setData n X) = m_predicate n" "m_compare (setData n X) = m_compare n"
  "m_data (setData n X) = X" "hasChildren (setData n X) = hasChildren n"
  "collectQuads (setData n X) = collectQuads n"
  "slotUL (setData n X) = slotUL n" "slotUR (setData n X) = slotUR n"
  "slotLL (setData n X) = slotLL n" "slotLR (setData n X) = slotLR n"
  by (cases n; simp)+

lemma deleteChildren_sel [simp]:
  "m_predicate (deleteChildren n) = m_predicate n" "m_compare (deleteChildren n) = m_compare n"
  "m_data (deleteChildren n) = m_data n" "\<not> hasChildren (deleteChildren n)"
  by (cases n; simp)+

lemma deleteChildren_setData: "deleteChildren (setData n X) = setData (deleteChildren n) X"
  by (cases n) simp

lemma setData_setData [simp]: "setData (setData n X) Y = setData n Y"
  by (cases n) simp

lemma deleteChildren_writeQuads [simp]: "deleteChildren (writeQuads n q) = deleteChildren n"
  by (cases n) simp

lemma deleteChildren_leaf: "\<not> hasChildren n \<Longrightarrow> deleteChildren n = n"
  by (cases n) simp

lemma rebalance_Suc:
  assumes "m_predicate n = Some pr"
  shows "rebalance (Suc k) n =
     (let S = ffilter (satisfies pr (m_compare n)) (getAllChildValues n) in
      if fcard S \<le> g_minDataSize then Inr (leafOutcome pr n)
      else if hasChildren n then
        (case collectQuads n of
           None \<Rightarrow> Inl NullDereference
         | Some refs \<Rightarrow>
             let q = buildQuadrantsFromData pr (m_compare n) S refs in
             if shouldSubdivide pr S q
             then rebalanceChildren (rebalance k) (addAll (writeQuads (setData n {||}) q) S)
             else Inr (leafOutcome pr n))
      else
        (let q = buildQuadrantsFromData pr (m_compare n) S (\<lambda>r. nilCompare pr) in
         if shouldSubdivide pr S q
         then rebalanceChildren (rebalance k) (addAll (createChildren pr (setData n {||}) q) S)
         else Inr (leafOutcome pr n)))"
proof -
  let ?S = "ffilter (satisfies pr (m_compare n)) (getAllChildValues n)"
  have leaf1: "setData (deleteChildren (setData n {||})) ?S = leafOutcome pr n"
    by (simp add: leafOutcome_def deleteChildren_setData)
  have leaf2: "setData (deleteChildren (writeQuads (setData n {||}) q)) ?S = leafOutcome pr n" for q
    by (simp add: leafOutcome_def deleteChildren_setData)
  show ?thesis
  proof (cases "hasChildren n")
    case True
    then show ?thesis
      unfolding rebalance.simps Let_def
      by (simp only: assms option.case setData_sel leaf1 leaf2 if_True if_False split: option.splits)
  next
    case False
    then have leaf3: "setData (setData n {||}) ?S = leafOutcome pr n"
      by (simp add: leafOutcome_def deleteChildren_leaf)
    from False show ?thesis
      unfolding rebalance.simps Let_def
      by (simp only: assms option.case setData_sel leaf3 if_True if_False)
  qed
qed

lemma rebalance_Suc_None:
  assumes "m_predicate n = None"
  shows "rebalance (Suc k) n = Inr n"
  by (simp only: rebalance.simps assms option.case)

lemma rebalance_Suc_cases:
  assumes "rebalance (Suc k) n = Inr n'"
  obtains (noPredicate) "m_predicate n = None" "n' = n"
  | (leaf) pr where "m_predicate n = Some pr" "n' = leafOutcome pr n"
  | (regroup) pr q where "m_predicate n = Some pr" "hasChildren n" "collectQuads n \<noteq> None"
      "rebalanceChildren (rebalance k)
         (addAll (writeQuads (setData n {||}) q)
            (ffilter (satisfies pr (m_compare n)) (getAllChildValues n))) = Inr n'"
  | (subdivide) pr q where "m_predicate n = Some pr" "\<not> hasChildren n"
      "rebalanceChildren (rebalance k)
         (addAll (createChildren pr (setData n {||}) q)
            (ffilter (satisfies pr (m_compare n)) (getAllChildValues n))) = Inr n'"
proof (cases "m_predicate n")
  case None
  have "rebalance (Suc k) n = Inr n" by (rule rebalance_Suc_None[OF None])
  with assms have "n' = n" by simp
  with None show ?thesis by (rule noPredicate)
next
  case (Some pr)
  let ?S = "ffilter (satisfies pr (m_compare n)) (getAllChildValues n)"
  note eq = assms[unfolded rebalance_Suc[OF Some] Let_def]
  show ?thesis
  proof (cases "fcard ?S \<le> g_minDataSize")
    case True
    with eq have "n' = leafOutcome pr n" by simp
    with Some show ?thesis by (rule leaf)
  next
    case big: False
    show ?thesis
    proof (cases "hasChildren n")
      case True
      show ?thesis
      proof (cases "collectQuads n")
        case None
        with eq big True show ?thesis by simp
      next
        case (Some refs)
        let ?q = "buildQuadrantsFromData pr (m_compare n) ?S refs"
        show ?thesis
        proof (cases "shouldSubdivide pr ?S ?q")
          case True
          with eq big \<open>hasChildren n\<close> Some
          have "rebalanceChildren (rebalance k) (addAll (writeQuads (setData n {||}) ?q) ?S) = Inr n'"
            by simp
          with \<open>m_predicate n = Some pr\<close> \<open>hasChildren n\<close> Some show ?thesis
            by (intro regroup[of pr ?q]) simp_all
        next
          case False
          with eq big \<open>hasChildren n\<close> Some have "n' = leafOutcome pr n" by simp
          with \<open>m_predicate n = Some pr\<close> show ?thesis by (rule leaf)
        qed
      qed
    next
      case False
      let ?q = "buildQuadrantsFromData pr (m_compare n) ?S (\<lambda>r. nilCompare pr)"
      show ?thesis
      proof (cases "shouldSubdivide pr ?S ?q")
        case True
        with eq big \<open>\<not> hasChildren n\<close>
        have "rebalanceChildren (rebalance k) (addAll (createChildren pr (setData n {||}) ?q) ?S) = Inr n'"
          by simp
        with \<open>m_predicate n = Some pr\<close> \<open>\<not> hasChildren n\<close> show ?thesis
          by (intro subdivide[of pr ?q]) simp_all
      next
        case nodiv: False
        with eq big \<open>\<not> hasChildren n\<close> have "n' = leafOutcome pr n" by simp
        with \<open>m_predicate n = Some pr\<close> show ?thesis by (rule leaf)
      qed
    qed
  qed
qed

lemmas [simp del] = rebalance.simps(2)

lemma rebalanceSlot_Inr:
  "rebalanceSlot f s = Inr s' \<longleftrightarrow>
     (s = None \<and> s' = None) \<or> (\<exists>m m'. s = Some m \<and> f m = Inr m' \<and> s' = Some m')"
  by (cases s) (auto split: sum.splits)

lemma rebalanceSlot_Inl:
  "rebalanceSlot f s = Inl e \<longleftrightarrow> (\<exists>m. s = Some m \<and> f m = Inl e)"
  by (cases s) (auto split: sum.splits)

lemma rebalanceChildren_Inr:
  "rebalanceChildren f (Node p c ul ur ll lr d) = Inr n' \<longleftrightarrow>
     (\<exists>ul' ur' ll' lr'. n' = Node p c ul' ur' ll' lr' d
        \<and> rebalanceSlot f ul = Inr ul' \<and> rebalanceSlot f ur = Inr ur'
        \<and> rebalanceSlot f ll = Inr ll' \<and> rebalanceSlot f lr = Inr lr')"
  by (auto split: sum.splits)

lemma rebalanceChildren_Inl:
  "rebalanceChildren f (Node p c ul ur ll lr d) = Inl e \<Longrightarrow>
     rebalanceSlot f ul = Inl e \<or> rebalanceSlot f ur = Inl e
       \<or> rebalanceSlot f ll = Inl e \<or> rebalanceSlot f lr = Inl e"
  by (auto split: sum.splits)

lemmas [simp del] = rebalanceChildren.simps

lemma rebalanceSlot_slotAll:
  assumes "rebalanceSlot f s = Inr s'" and "slotAll Q s"
      and "\<And>m m'. Q m \<Longrightarrow> f m = Inr m' \<Longrightarrow> Q m'"
  shows "slotAll Q s'"
  using assms by (auto simp: rebalanceSlot_Inr)

lemma rebalanceSlot_None_iff: "rebalanceSlot f s = Inr s' \<Longrightarrow> s' = None \<longleftrightarrow> s = None"
  by (auto simp: rebalanceSlot_Inr)

subsection \<open>Invariants under rebalance\<close>

lemma samePredicate_setData [simp]: "samePredicate P (setData n X) = samePredicate P n"
  by (cases n) (simp add: samePredicate_alt)

lemma allOrNothing_setData [simp]: "allOrNothing (setData n X) = allOrNothing n"
  by (cases n) (simp add: allOrNothing_alt)

lemma samePredicate_setCompare [simp]: "samePredicate P (setCompare n c) = samePredicate P n"
  by (cases n) (simp add: samePredicate_alt)

lemma allOrNothing_setCompare [simp]: "allOrNothing (setCompare n c) = allOrNothing n"
  by (cases n) (simp add: allOrNothing_alt)

lemma samePredicate_deleteChildren: "samePredicate P n \<Longrightarrow> samePredicate P (deleteChildren n)"
  by (cases n) (simp add: samePredicate_alt)

lemma allOrNothing_deleteChildren [simp]: "allOrNothing (deleteChildren n)"
  by (cases n) (simp add: allOrNothing_alt)

lemma samePredicate_newNode [simp]: "samePredicate (Some pr) (newNode pr)"
  by (simp add: newNode_def samePredicate_alt)

lemma allOrNothing_newNode [simp]: "allOrNothing (newNode pr)"
  by (simp add: newNode_def allOrNothing_alt)

lemma writeQuads_alt:
  "writeQuads (Node p c ul ur ll lr d) q =
     Node p c (map_option (\<lambda>n. setCompare n (q UPPER_LEFT)) ul)
       (map_option (\<lambda>n. setCompare n (q UPPER_RIGHT)) ur)
       (map_option (\<lambda>n. setCompare n (q LOWER_LEFT)) ll)
       (map_option (\<lambda>n. setCompare n (q LOWER_RIGHT)) lr) d"
  by (cases ul; cases ur; cases ll; cases lr) simp_all

lemmas [simp del] = writeQuads.simps

lemma samePredicate_writeQuads [simp]: "samePredicate P (writeQuads n q) = samePredicate P n"
  by (cases n) (simp add: writeQuads_alt samePredicate_alt slotAll_map)

lemma allOrNothing_writeQuads [simp]: "allOrNothing (writeQuads n q) = allOrNothing n"
  by (cases n) (simp add: writeQuads_alt allOrNothing_alt slotAll_map)

lemma samePredicate_createChildren:
  "samePredicate (Some pr) n \<Longrightarrow> samePredicate (Some pr) (createChildren pr n q)"
  by (cases n) (auto simp: samePredicate_alt split: option.splits)

lemma allOrNothing_createChildren:
  "allOrNothing n \<Longrightarrow> allOrNothing (createChildren pr n q)"
  by (cases n) (auto simp: allOrNothing_alt split: option.splits)

lemma fold_add_preserves:
  assumes "\<And>m v. Q m \<Longrightarrow> Q (add m v)" and "Q n"
  shows "Q (fold (\<lambda>thisVal m. add m thisVal) xs n)"
  using assms(2) by (induction xs arbitrary: n) (simp_all add: assms(1))

lemma samePredicate_addAll: "samePredicate P n \<Longrightarrow> samePredicate P (addAll n vals)"
  unfolding addAll_def by (rule fold_add_preserves) (simp_all add: samePredicate_add)

lemma allOrNothing_addAll: "allOrNothing n \<Longrightarrow> allOrNothing (addAll n vals)"
  unfolding addAll_def by (rule fold_add_preserves) (simp_all add: allOrNothing_add)

lemma rebalanceChildren_samePredicate:
  assumes "rebalanceChildren f n = Inr n'" and "samePredicate P n"
      and "\<And>m m'. samePredicate P m \<Longrightarrow> f m = Inr m' \<Longrightarrow> samePredicate P m'"
  shows "samePredicate P n'"
proof (cases n)
  case (Node p c ul ur ll lr d)
  with assms(1) obtain ul' ur' ll' lr' where
    n': "n' = Node p c ul' ur' ll' lr' d" and
    s: "rebalanceSlot f ul = Inr ul'" "rebalanceSlot f ur = Inr ur'"
       "rebalanceSlot f ll = Inr ll'" "rebalanceSlot f lr = Inr lr'"
    by (auto simp: rebalanceChildren_Inr)
  from assms(2) Node have
    "slotAll (samePredicate P) ul" "slotAll (samePredicate P) ur"
    "slotAll (samePredicate P) ll" "slotAll (samePredicate P) lr" "p = P"
    by (simp_all add: samePredicate_alt)
  with s n' show ?thesis
    by (auto simp: samePredicate_alt intro: rebalanceSlot_slotAll[OF _ _ assms(3)])
qed

lemma rebalanceChildren_allOrNothing:
  assumes "rebalanceChildren f n = Inr n'" and "allOrNothing n"
      and "\<And>m m'. allOrNothing m \<Longrightarrow> f m = Inr m' \<Longrightarrow> allOrNothing m'"
  shows "allOrNothing n'"
proof (cases n)
  case (Node p c ul ur ll lr d)
  with assms(1) obtain ul' ur' ll' lr' where
    n': "n' = Node p c ul' ur' ll' lr' d" and
    s: "rebalanceSlot f ul = Inr ul'" "rebalanceSlot f ur = Inr ur'"
       "rebalanceSlot f ll = Inr ll'" "rebalanceSlot f lr = Inr lr'"
    by (auto simp: rebalanceChildren_Inr)
  from assms(2) Node have a:
    "slotAll allOrNothing ul" "slotAll allOrNothing ur"
    "slotAll allOrNothing ll" "slotAll allOrNothing lr"
    and shape: "(ul = None \<and> ur = None \<and> ll = None \<and> lr = None)
        \<or> (ul \<noteq> None \<and> ur \<noteq> None \<and> ll \<noteq> None \<and> lr \<noteq> None)"
    by (simp_all add: allOrNothing_alt)
  have "slotAll allOrNothing ul'" "slotAll allOrNothing ur'"
       "slotAll allOrNothing ll'" "slotAll allOrNothing lr'"
    using s a by (auto intro: rebalanceSlot_slotAll[OF _ _ assms(3)])
  moreover have "(ul' = None \<and> ur' = None \<and> ll' = None \<and> lr' = None)
        \<or> (ul' \<noteq> None \<and> ur' \<noteq> None \<and> ll' \<noteq> None \<and> lr' \<noteq> None)"
    using shape s by (simp add: rebalanceSlot_None_iff)
  ultimately show ?thesis using n' by (simp add: allOrNothing_alt)
qed

lemma samePredicate_m_predicate: "samePredicate P n \<Longrightarrow> m_predicate n = P"
  by (cases n) (simp add: samePredicate_alt)

lemma samePredicate_leafOutcome: "samePredicate P n \<Longrightarrow> samePredicate P (leafOutcome pr n)"
  by (simp add: leafOutcome_def samePredicate_deleteChildren)

lemma allOrNothing_leafOutcome [simp]: "allOrNothing (leafOutcome pr n)"
  by (simp add: leafOutcome_def)

lemma rebalance_samePredicate:
  "rebalance k n = Inr n' \<Longrightarrow> samePredicate P n \<Longrightarrow> samePredicate P n'"
proof (induction k arbitrary: n n')
  case 0
  then show ?case by simp
next
  case (Suc k)
  from Suc.prems(1) show ?case
  proof (cases rule: rebalance_Suc_cases)
    case noPredicate
    with Suc.prems show ?thesis by simp
  next
    case (leaf pr)
    with Suc.prems show ?thesis by (simp add: samePredicate_leafOutcome)
  next
    case (regroup pr q)
    from Suc.prems(2) have "samePredicate P (addAll (writeQuads (setData n {||}) q)
        (ffilter (satisfies pr (m_compare n)) (getAllChildValues n)))"
      by (simp add: samePredicate_addAll)
    with regroup(4) show ?thesis
      by (rule rebalanceChildren_samePredicate) (rule Suc.IH)
  next
    case (subdivide pr q)
    with Suc.prems(2) have "P = Some pr" by (auto dest: samePredicate_m_predicate)
    with Suc.prems(2) have "samePredicate P (addAll (createChildren pr (setData n {||}) q)
        (ffilter (satisfies pr (m_compare n)) (getAllChildValues n)))"
      by (simp add: samePredicate_addAll samePredicate_createChildren)
    with subdivide(3) show ?thesis
      by (rule rebalanceChildren_samePredicate) (rule Suc.IH)
  qed
qed

lemma rebalance_allOrNothing:
  "rebalance k n = Inr n' \<Longrightarrow> allOrNothing n \<Longrightarrow> allOrNothing n'"
proof (induction k arbitrary: n n')
  case 0
  then show ?case by simp
next
  case (Suc k)
  from Suc.prems(1) show ?case
  proof (cases rule: rebalance_Suc_cases)
    case noPredicate
    with Suc.prems show ?thesis by simp
  next
    case (leaf pr)
    then show ?thesis by simp
  next
    case (regroup pr q)
    from Suc.prems(2) have "allOrNothing (addAll (writeQuads (setData n {||}) q)
        (ffilter (satisfies pr (m_compare n)) (getAllChildValues n)))"
      by (simp add: allOrNothing_addAll)
    with regroup(4) show ?thesis
      by (rule rebalanceChildren_allOrNothing) (rule Suc.IH)
  next
    case (subdivide pr q)
    from Suc.prems(2) have "allOrNothing (addAll (createChildren pr (setData n {||}) q)
        (ffilter (satisfies pr (m_compare n)) (getAllChildValues n)))"
      by (simp add: allOrNothing_addAll allOrNothing_createChildren)
    with subdivide(3) show ?thesis
      by (rule rebalanceChildren_allOrNothing) (rule Suc.IH)
  qed
qed

lemma allOrNothing_collectQuads:
  "allOrNothing n \<Longrightarrow> hasChildren n \<Longrightarrow> collectQuads n \<noteq> None"
  by (cases n) (auto simp: allOrNothing_alt)

lemma allOrNothing_child:
  "allOrNothing (Node p c ul ur ll lr d) \<Longrightarrow>
     s \<in> {ul, ur, ll, lr} \<Longrightarrow> s = Some m \<Longrightarrow> allOrNothing m"
  by (auto simp: allOrNothing_alt)

lemma rebalance_no_null:
  fixes n :: "('v::linorder, 'c) Node"
  shows "allOrNothing n \<Longrightarrow> rebalance k n \<noteq> Inl NullDereference"
proof (induction k arbitrary: n)
  case 0
  then show ?case by simp
next
  case (Suc k)
  have children: "rebalanceChildren (rebalance k) m \<noteq> Inl NullDereference"
    if "allOrNothing m" for m :: "('v, 'c) Node"
  proof
    assume bad: "rebalanceChildren (rebalance k) m = Inl NullDereference"
    obtain p c ul ur ll lr d where m: "m = Node p c ul ur ll lr d" by (cases m)
    from rebalanceChildren_Inl[OF bad[unfolded m]]
    obtain s x where "s \<in> {ul, ur, ll, lr}" "s = Some x" "rebalance k x = Inl NullDereference"
      by (auto simp: rebalanceSlot_Inl)
    with that m have "allOrNothing x" by (auto dest: allOrNothing_child)
    with Suc.IH \<open>rebalance k x = Inl NullDereference\<close> show False by blast
  qed
  show ?case
  proof (cases "m_predicate n")
    case None
    then show ?thesis by (simp add: rebalance_Suc_None)
  next
    case (Some pr)
    show ?thesis
      unfolding rebalance_Suc[OF Some] Let_def
      using Suc.prems allOrNothing_collectQuads[OF Suc.prems]
      by (auto split: option.splits
            intro!: children allOrNothing_addAll allOrNothing_createChildren)
  qed
qed

subsection \<open>Reachable trees satisfy the invariants\<close>

lemma clear_result: "clear (Node p c ul ur ll lr d) = Node p c None None None None {||}"
  by simp

lemma samePredicate_clear: "samePredicate P n \<Longrightarrow> samePredicate P (clear n)"
  by (cases n) (simp add: samePredicate_alt del: clear.simps add: clear_result)

lemma allOrNothing_clear [simp]: "allOrNothing (clear n)"
  by (cases n) (simp add: allOrNothing_alt del: clear.simps add: clear_result)

lemma m_predicate_buildRootRegion [simp]: "m_predicate (buildRootRegion n) = m_predicate n"
  by (cases n) (simp add: buildRootRegion_def split: option.splits)

lemma samePredicate_buildRootRegion [simp]:
  "samePredicate P (buildRootRegion n) = samePredicate P n"
  by (simp add: buildRootRegion_def split: option.splits)

lemma allOrNothing_buildRootRegion [simp]: "allOrNothing (buildRootRegion n) = allOrNothing n"
  by (simp add: buildRootRegion_def split: option.splits)

lemma tree_rebalance_Inr:
  "tree_rebalance k t = Inr t' \<longleftrightarrow>
     (m_tree t = None \<and> t' = t)
     \<or> (\<exists>n n'. m_tree t = Some n \<and> rebalance k (buildRootRegion n) = Inr n'
           \<and> t' = t\<lparr>m_tree := Some n'\<rparr>)"
  by (auto simp: tree_rebalance_def split: option.splits sum.splits)

lemma reachable_invariant: "reachable t \<Longrightarrow> treeInvariant t"
proof (induction rule: reachable.induct)
  case (r_new pred)
  then show ?case by (simp add: treeInvariant_def newTree_def)
next
  case (r_setPredicate t pred)
  then show ?case
    by (auto simp: treeInvariant_def tree_setPredicate_def samePredicate_setPredicate
          allOrNothing_setPredicate split: option.splits)
next
  case (r_add t val)
  then show ?case
    by (auto simp: treeInvariant_def tree_add_def samePredicate_add allOrNothing_add
          split: option.splits)
next
  case (r_remove t val)
  then show ?case
    by (auto simp: treeInvariant_def tree_remove_def samePredicate_remove allOrNothing_remove
          split: option.splits)
next
  case (r_clear t)
  then show ?case
    by (auto simp: treeInvariant_def tree_clear_def samePredicate_clear split: option.splits)
next
  case (r_rebalance t depth t')
  show ?case
  proof (cases "m_tree t")
    case None
    with r_rebalance show ?thesis by (simp add: tree_rebalance_Inr)
  next
    case (Some n)
    with r_rebalance(2) obtain n' where
      n': "rebalance depth (buildRootRegion n) = Inr n'" "t' = t\<lparr>m_tree := Some n'\<rparr>"
      by (auto simp: tree_rebalance_Inr)
    from r_rebalance.IH Some
    have "samePredicate (tree_predicate t) (buildRootRegion n)" "allOrNothing (buildRootRegion n)"
      by (simp_all add: treeInvariant_def)
    with n'(1) have "samePredicate (tree_predicate t) n'" "allOrNothing n'"
      by (auto intro: rebalance_samePredicate rebalance_allOrNothing)
    with n'(2) show ?thesis by (simp add: treeInvariant_def)
  qed
next
  case (r_copy t)
  then show ?case
    by (auto simp: treeInvariant_def tree_copy_def copyNode_id split: option.splits)
next
  case (r_swap_left left right)
  then show ?case by (simp add: treeInvariant_def tree_swap_def split: option.splits)
next
  case (r_swap_right left right)
  then show ?case by (simp add: treeInvariant_def tree_swap_def split: option.splits)
qed

subsection \<open>Insertion and the transitive membership\<close>

lemma slotVals_route:
  assumes "\<And>m. s = Some m \<Longrightarrow> getAllChildValues (add m v) = finsert v (getAllChildValues m)"
  shows "slotVals getAllChildValues (map_option (route pr v) s) =
           (if accepts pr v s then finsert v (slotVals getAllChildValues s)
            else slotVals getAllChildValues s)"
  using assms by (cases s) (simp_all add: route_def)

lemma getAllChildValues_add:
  "samePredicate (Some pr) n \<Longrightarrow> getAllChildValues (add n v) = finsert v (getAllChildValues n)"
proof (induction n)
  case (Node p c ul ur ll lr d)
  from Node.prems have p: "p = Some pr"
    and ch: "slotAll (samePredicate (Some pr)) ul" "slotAll (samePredicate (Some pr)) ur"
            "slotAll (samePredicate (Some pr)) ll" "slotAll (samePredicate (Some pr)) lr"
    by (simp_all add: samePredicate_alt)
  have "slotVals getAllChildValues (map_option (route pr v) ul) =
           (if accepts pr v ul then finsert v (slotVals getAllChildValues ul)
            else slotVals getAllChildValues ul)"
       "slotVals getAllChildValues (map_option (route pr v) ur) =
           (if accepts pr v ur then finsert v (slotVals getAllChildValues ur)
            else slotVals getAllChildValues ur)"
       "slotVals getAllChildValues (map_option (route pr v) ll) =
           (if accepts pr v ll then finsert v (slotVals getAllChildValues ll)
            else slotVals getAllChildValues ll)"
       "slotVals getAllChildValues (map_option (route pr v) lr) =
           (if accepts pr v lr then finsert v (slotVals getAllChildValues lr)
            else slotVals getAllChildValues lr)"
    by (rule slotVals_route, use Node.IH ch in simp)+
  then show ?case
    unfolding p add_alt getAllChildValues_alt by auto
qed

subsection \<open>Evaluating the concrete trees\<close>

lemma ffilter_finsert:
  "ffilter P (finsert x A) = (if P x then finsert x (ffilter P A) else ffilter P A)"
  by auto

lemma ffilter_fempty: "ffilter P {||} = {||}"
  by auto

lemma sorted_four: "sorted_list_of_fset {|14, 10, 6, 2::nat|} = [2, 6, 10, 14]"
  by code_simp

lemma quartersLeaf_pred: "m_predicate (quartersLeaf c d) = Some quarters"
  by (simp add: quartersLeaf_def)


lemma quarters_simps [simp]:
  "nilCompare quarters = (0, 1)"
  "buildRegionFromData quarters S = (0, 16)"
  "buildQuadrantsFromData quarters (lo, len) S quads UPPER_LEFT = (lo, len div 4)"
  "buildQuadrantsFromData quarters (lo, len) S quads UPPER_RIGHT = (lo + len div 4, len div 4)"
  "buildQuadrantsFromData quarters (lo, len) S quads LOWER_LEFT = (lo + 2 * (len div 4), len div 4)"
  "buildQuadrantsFromData quarters (lo, len) S quads LOWER_RIGHT = (lo + 3 * (len div 4), len div 4)"
  "satisfies quarters (lo, len) v \<longleftrightarrow> lo \<le> v \<and> v < lo + len"
  "overlaps quarters (a, l) (b, m) \<longleftrightarrow> a < b + m \<and> b < a + l"
  by (simp_all add: quarters_def)

lemma fourValues_eq:
  "fourValues = \<lparr>tree_predicate = Some quarters,
                 m_tree = Some (quartersLeaf (0, 1) {|14, 10, 6, 2|})\<rparr>"
  by (simp add: fourValues_def tree_add_def newTree_def newNode_def add_alt quartersLeaf_def)

lemma leaf_rebalance:
  assumes "fcard d \<le> 3"
  shows "rebalance (Suc k) (quartersLeaf c d) =
      Inr (quartersLeaf c (ffilter (satisfies quarters c) d))"
proof -
  have "fcard (ffilter (satisfies quarters c) d) \<le> fcard d"
    by (rule fcard_mono) auto
  with assms show ?thesis
    by (simp add: rebalance_Suc[where pr=quarters] quartersLeaf_def leafOutcome_def
          getAllChildValues_alt g_minDataSize_def)
qed

lemma root_subdivides:
  "shouldSubdivide quarters {|14, 10, 6, 2|}
     (buildQuadrantsFromData quarters (0, 16) {|14, 10, 6, 2|} (\<lambda>r. nilCompare quarters))"
  by (simp add: shouldSubdivide_def sorted_four regionCodes_def)

lemma root_addAll:
  "addAll (createChildren quarters (setData (quartersLeaf (0, 16) {|14, 10, 6, 2|}) {||})
            (buildQuadrantsFromData quarters (0, 16) {|14, 10, 6, 2|} (\<lambda>r. nilCompare quarters)))
      {|14, 10, 6, 2|} = quartersRoot"
  by (simp add: addAll_def sorted_four quartersLeaf_def newNode_def add_alt route_def
        quartersRoot_def)

lemma root_rebalance: "rebalance 2 (quartersLeaf (0, 16) {|14, 10, 6, 2|}) = Inr quartersRoot"
proof -
  have S: "ffilter (satisfies quarters (0, 16)) {|14, 10, 6, 2|} = {|14, 10, 6, 2|}"
    by (simp add: ffilter_finsert ffilter_fempty)
  have big: "\<not> fcard {|14, 10, 6, 2::nat|} \<le> g_minDataSize"
    by (simp add: fcard_finsert_if g_minDataSize_def)
  have kids: "rebalanceChildren (rebalance (Suc 0)) quartersRoot = Inr quartersRoot"
    by (simp add: quartersRoot_def rebalanceChildren_Inr rebalanceSlot_Inr leaf_rebalance
          fcard_finsert_if fcard_fempty ffilter_finsert ffilter_fempty)
  have "rebalance (Suc (Suc 0)) (quartersLeaf (0, 16) {|14, 10, 6, 2|}) = Inr quartersRoot"
    unfolding rebalance_Suc[where pr = quarters and n = "quartersLeaf (0, 16) {|14, 10, 6, 2|}",
        OF quartersLeaf_pred] Let_def
    using S big root_subdivides root_addAll kids
    by (simp add: quartersLeaf_def getAllChildValues_alt)
  then show ?thesis by (simp add: numeral_2_eq_2)
qed

lemma buildRootRegion_leaf: "buildRootRegion (quartersLeaf c d) = quartersLeaf (0, 16) d"
  by (simp add: buildRootRegion_def quartersLeaf_def)

lemma fourValues_rebalance:
  "tree_rebalance 2 fourValues = Inr \<lparr>tree_predicate = Some quarters, m_tree = Some quartersRoot\<rparr>"
  by (simp add: fourValues_eq tree_rebalance_def buildRootRegion_leaf root_rebalance)

lemma reachable_fourValues: "reachable fourValues"
  unfolding fourValues_def by (intro r_add r_new)

lemma reachable_rebalancedFour: "reachable rebalancedFour"
  unfolding rebalancedFour_def
  using reachable_fourValues fourValues_rebalance by (rule r_rebalance)

lemma getAllChildValues_setCompare [simp]:
  "getAllChildValues (setCompare n c) = getAllChildValues n"
  by (cases n) (simp add: getAllChildValues_alt)

lemma setCompare_sel [simp]:
  "m_predicate (setCompare n c) = m_predicate n" "m_compare (setCompare n c) = c"
  "m_data (setCompare n c) = m_data n" "hasChildren (setCompare n c) = hasChildren n"
  by (cases n; simp)+

lemma getAllChildValues_leafOutcome:
  "getAllChildValues (leafOutcome pr n) = ffilter (satisfies pr (m_compare n)) (getAllChildValues n)"
  by (cases n) (simp add: leafOutcome_def getAllChildValues_alt)

lemma leafOutcome_sel [simp]:
  "\<not> hasChildren (leafOutcome pr n)"
  "m_data (leafOutcome pr n) = ffilter (satisfies pr (m_compare n)) (getAllChildValues n)"
  "m_compare (leafOutcome pr n) = m_compare n"
  "m_predicate (leafOutcome pr n) = m_predicate n"
  by (simp_all add: leafOutcome_def)

subsection \<open>Claims about reachable trees\<close>

text \<open>
  Claim C10. On a reachable tree with a predicate set, \<^verbatim>\<open>add(v)\<close> leaves \<open>v\<close> in the
  transitive membership of the root, whatever the search spaces of the root and of its
  children are: the value goes into a child subtree or into a node's local set.
\<close>
theorem add_never_loses:
  assumes "reachable t" and "tree_predicate t = Some pr"
  shows "v |\<in>| tree_allValues (tree_add t v)"
proof -
  from assms(1) have inv: "treeInvariant t" by (rule reachable_invariant)
  show ?thesis
  proof (cases "m_tree t")
    case None
    with assms(2) show ?thesis
      by (simp add: tree_add_def tree_allValues_def newNode_def add_alt getAllChildValues_alt)
  next
    case (Some n)
    with inv assms(2) have "samePredicate (Some pr) n" by (simp add: treeInvariant_def)
    then have "getAllChildValues (add n v) = finsert v (getAllChildValues n)"
      by (rule getAllChildValues_add)
    with Some assms(2) show ?thesis
      by (simp add: tree_add_def tree_allValues_def)
  qed
qed

theorem add_never_loses_witness:
  "reachable rebalancedFour \<and> tree_predicate rebalancedFour = Some quarters
   \<and> 20 |\<in>| tree_allValues (tree_add rebalancedFour 20)"
proof -
  have "tree_predicate rebalancedFour = Some quarters" by (simp add: rebalancedFour_def)
  with add_never_loses[OF reachable_rebalancedFour this, of 20] reachable_rebalancedFour
  show ?thesis by blast
qed

text \<open>
  Claim C6. In every reachable tree each node has its four child slots all null or all
  non-null, and therefore \<^verbatim>\<open>rebalance\<close>, at any depth bound, never dereferences a
  null slot when it collects the references to the children's search spaces.
\<close>
theorem reachable_all_or_nothing:
  assumes "reachable t"
  shows "(\<forall>root. m_tree t = Some root \<longrightarrow> allOrNothing root)
         \<and> (\<forall>depth. tree_rebalance depth t \<noteq> Inl NullDereference)"
proof -
  from assms have inv: "treeInvariant t" by (rule reachable_invariant)
  have "tree_rebalance depth t \<noteq> Inl NullDereference" for depth
  proof (cases "m_tree t")
    case None
    then show ?thesis by (simp add: tree_rebalance_def)
  next
    case (Some n)
    with inv have "allOrNothing (buildRootRegion n)" by (simp add: treeInvariant_def)
    from rebalance_no_null[OF this, of depth] Some show ?thesis
      by (auto simp: tree_rebalance_def split: sum.splits)
  qed
  with inv show ?thesis by (auto simp: treeInvariant_def)
qed

theorem reachable_all_or_nothing_witness:
  "reachable rebalancedFour \<and> m_tree rebalancedFour = Some quartersRoot
   \<and> allOrNothing quartersRoot \<and> tree_rebalance 2 rebalancedFour \<noteq> Inl NullDereference"
proof -
  have "m_tree rebalancedFour = Some quartersRoot" by (simp add: rebalancedFour_def)
  with reachable_all_or_nothing[OF reachable_rebalancedFour] reachable_rebalancedFour
  show ?thesis by blast
qed

text \<open>
  Claim C3, as stated, fails on a tree whose predicate was unset: \<^verbatim>\<open>Node::rebalance\<close>
  returns at once when \<^verbatim>\<open>m_predicate\<close> is null. The tree below is built by four
  additions, a rebalance, \<^verbatim>\<open>setPredicate(nullptr)\<close> and one removal; it holds three
  values, rebalancing returns it unchanged, and its root still has children.
\<close>

theorem small_tree_keeps_children_counterexample:
  "reachable afterUnset
   \<and> fcard (tree_allValues afterUnset) \<le> g_minDataSize
   \<and> tree_rebalance 2 afterUnset = Inr afterUnset
   \<and> map_option hasChildren (m_tree afterUnset) = Some True"
proof -
  have r: "reachable afterUnset"
    unfolding afterUnset_def by (intro r_remove r_setPredicate reachable_rebalancedFour)
  have eq: "afterUnset = \<lparr>tree_predicate = None,
      m_tree = Some (Node None (0, 16)
        (Some (Node None (0, 4) None None None None {|2|}))
        (Some (Node None (4, 4) None None None None {|6|}))
        (Some (Node None (8, 4) None None None None {|10|}))
        (Some (Node None (12, 4) None None None None {||})) {||})\<rparr>"
    by (simp add: afterUnset_def rebalancedFour_def tree_setPredicate_def tree_remove_def
          quartersRoot_def quartersLeaf_def setPredicate_alt remove_alt)
  have "fcard (tree_allValues afterUnset) \<le> g_minDataSize"
    unfolding eq by (simp add: tree_allValues_def getAllChildValues_alt g_minDataSize_def
        fcard_finsert_if fcard_fempty)
  moreover have "tree_rebalance 2 afterUnset = Inr afterUnset"
    unfolding eq
    by (simp add: tree_rebalance_def buildRootRegion_def numeral_2_eq_2 rebalance_Suc_None)
  moreover have "map_option hasChildren (m_tree afterUnset) = Some True"
    unfolding eq by simp
  ultimately show ?thesis using r by blast
qed

text \<open>
  Claim C3, amended. When the root node holds a predicate and the tree stores at most
  \<open>g_minDataSize\<close> distinct values, \<^verbatim>\<open>rebalance\<close> returns at every depth bound of at
  least one, the root has no children afterwards, and its local set holds exactly the stored
  values that satisfy the rebuilt root search space.
\<close>

theorem small_tree_collapses:
  assumes "m_tree t = Some root" and "m_predicate root = Some pr"
      and "fcard (tree_allValues t) \<le> g_minDataSize"
  shows "\<exists>root'. tree_rebalance (Suc depth) t = Inr (t\<lparr>m_tree := Some root'\<rparr>)
           \<and> \<not> hasChildren root'
           \<and> m_data root' = ffilter (satisfies pr (buildRegionFromData pr (tree_allValues t)))
                                    (tree_allValues t)
           \<and> getAllChildValues root' = m_data root'"
proof -
  let ?c = "buildRegionFromData pr (tree_allValues t)"
  let ?n = "buildRootRegion root"
  let ?S = "ffilter (satisfies pr ?c) (tree_allValues t)"
  have all: "tree_allValues t = getAllChildValues root"
    using assms(1) by (simp add: tree_allValues_def)
  have n: "?n = setCompare root ?c"
    using assms(2) all by (simp add: buildRootRegion_def)
  have "fcard ?S \<le> fcard (tree_allValues t)"
    by (rule fcard_mono) auto
  with assms(3) have small: "fcard ?S \<le> g_minDataSize" by simp
  have pn: "m_predicate ?n = Some pr" using assms(2) by simp
  have "rebalance (Suc depth) ?n = Inr (leafOutcome pr ?n)"
    unfolding rebalance_Suc[OF pn] Let_def using small by (simp add: n all)
  with assms(1) have "tree_rebalance (Suc depth) t = Inr (t\<lparr>m_tree := Some (leafOutcome pr ?n)\<rparr>)"
    by (simp add: tree_rebalance_def)
  moreover have "m_data (leafOutcome pr ?n) = ?S"
    by (simp add: n all)
  moreover have "getAllChildValues (leafOutcome pr ?n) = m_data (leafOutcome pr ?n)"
    by (simp add: getAllChildValues_leafOutcome)
  ultimately show ?thesis by (intro exI[of _ "leafOutcome pr ?n"]) simp
qed

theorem small_tree_collapses_witness:
  "m_tree (tree_remove rebalancedFour 14) = Some (remove quartersRoot 14)
   \<and> m_predicate (remove quartersRoot 14) = Some quarters
   \<and> hasChildren (remove quartersRoot 14)
   \<and> fcard (tree_allValues (tree_remove rebalancedFour 14)) \<le> g_minDataSize
   \<and> (\<exists>root'. tree_rebalance 1 (tree_remove rebalancedFour 14)
                  = Inr ((tree_remove rebalancedFour 14)\<lparr>m_tree := Some root'\<rparr>)
           \<and> \<not> hasChildren root'
           \<and> m_data root' = {|10, 6, 2|})"
proof -
  let ?t = "tree_remove rebalancedFour 14"
  have h1: "m_tree ?t = Some (remove quartersRoot 14)"
    by (simp add: tree_remove_def rebalancedFour_def)
  have h2: "m_predicate (remove quartersRoot 14) = Some quarters"
    by (simp add: quartersRoot_def remove_alt)
  have h3: "hasChildren (remove quartersRoot 14)"
    by (simp add: quartersRoot_def remove_alt)
  have vals: "tree_allValues ?t = {|10, 6, 2|}"
    by (simp add: tree_allValues_def tree_remove_def rebalancedFour_def quartersRoot_def
          quartersLeaf_def remove_alt getAllChildValues_alt)
  have h4: "fcard (tree_allValues ?t) \<le> g_minDataSize"
    by (simp add: vals g_minDataSize_def fcard_finsert_if fcard_fempty)
  have f: "ffilter (satisfies quarters (buildRegionFromData quarters (tree_allValues ?t)))
             (tree_allValues ?t) = {|10, 6, 2|}"
    by (simp add: vals ffilter_finsert ffilter_fempty)
  from small_tree_collapses[OF h1 h2 h4, of 0] obtain root' where
    "tree_rebalance (Suc 0) ?t = Inr (?t\<lparr>m_tree := Some root'\<rparr>)" "\<not> hasChildren root'"
    "m_data root' = {|10, 6, 2|}"
    unfolding f by blast
  with h1 h2 h3 h4 show ?thesis by auto
qed

subsection \<open>The subdivision decision\<close>

lemma set_regionCodes: "set regionCodes = UNIV"
proof -
  have "r \<in> set regionCodes" for r by (cases r) (simp_all add: regionCodes_def)
  then show ?thesis by blast
qed

lemma shouldSubdivide_iff:
  "shouldSubdivide pr S q \<longleftrightarrow> (\<exists>v r. v |\<in>| S \<and> \<not> satisfies pr (q r) v)"
  by (auto simp: shouldSubdivide_def list_ex_iff set_regionCodes)

lemma rebalance_not_subdividing:
  assumes "m_predicate n = Some pr" and "candidateQuads pr n = Some mapQuads"
      and "\<not> shouldSubdivide pr (survivingData pr n) mapQuads"
  shows "rebalance (Suc depth) n = Inr (leafOutcome pr n)"
proof (cases "hasChildren n")
  case True
  with assms(2) obtain refs where refs: "collectQuads n = Some refs"
    and q: "mapQuads = buildQuadrantsFromData pr (m_compare n) (survivingData pr n) refs"
    by (auto simp: candidateQuads_def)
  show ?thesis
    unfolding rebalance_Suc[OF assms(1)] Let_def
    using True refs assms(3) by (simp add: q survivingData_def)
next
  case False
  with assms(2) have
    q: "mapQuads = buildQuadrantsFromData pr (m_compare n) (survivingData pr n) (\<lambda>r. nilCompare pr)"
    by (auto simp: candidateQuads_def)
  show ?thesis
    unfolding rebalance_Suc[OF assms(1)] Let_def
    using False assms(3) by (simp add: q survivingData_def)
qed

text \<open>
  Claim C4. For a node with a predicate, let the surviving data and the candidate quadrants
  be what \<^verbatim>\<open>rebalance\<close> computes. If every surviving value satisfies all four
  quadrants, \<^verbatim>\<open>shouldSubdivide\<close> is false and \<^verbatim>\<open>rebalance\<close> returns (at every
  depth bound of at least one) a node without children whose local set is the surviving
  data, however many values there are. If some surviving value fails some quadrant,
  \<^verbatim>\<open>shouldSubdivide\<close> is true.
\<close>

theorem no_discrimination_no_children:
  assumes "m_predicate n = Some pr" and "candidateQuads pr n = Some mapQuads"
  shows "((\<forall>v r. v |\<in>| survivingData pr n \<longrightarrow> satisfies pr (mapQuads r) v) \<longrightarrow>
            \<not> shouldSubdivide pr (survivingData pr n) mapQuads
            \<and> (\<exists>n'. rebalance (Suc depth) n = Inr n' \<and> \<not> hasChildren n'
                   \<and> m_data n' = survivingData pr n))
         \<and> ((\<exists>v r. v |\<in>| survivingData pr n \<and> \<not> satisfies pr (mapQuads r) v) \<longrightarrow>
            shouldSubdivide pr (survivingData pr n) mapQuads)"
proof (intro conjI impI)
  assume all: "\<forall>v r. v |\<in>| survivingData pr n \<longrightarrow> satisfies pr (mapQuads r) v"
  then show no: "\<not> shouldSubdivide pr (survivingData pr n) mapQuads"
    by (auto simp: shouldSubdivide_iff)
  from rebalance_not_subdividing[OF assms no, of depth]
  show "\<exists>n'. rebalance (Suc depth) n = Inr n' \<and> \<not> hasChildren n' \<and> m_data n' = survivingData pr n"
    by (intro exI[of _ "leafOutcome pr n"]) (simp add: survivingData_def)
next
  assume "\<exists>v r. v |\<in>| survivingData pr n \<and> \<not> satisfies pr (mapQuads r) v"
  then show "shouldSubdivide pr (survivingData pr n) mapQuads"
    by (simp add: shouldSubdivide_iff)
qed

lemma undivided_simps [simp]:
  "nilCompare undivided = (0, 1)"
  "buildQuadrantsFromData undivided c S quads = (\<lambda>r. c)"
  "satisfies undivided (lo, len) v \<longleftrightarrow> lo \<le> v \<and> v < lo + len"
  by (simp_all add: undivided_def quarters_def)

theorem no_discrimination_no_children_witness:
  "m_predicate crowdedLeaf = Some undivided
   \<and> candidateQuads undivided crowdedLeaf = Some (\<lambda>r. (0, 16))
   \<and> survivingData undivided crowdedLeaf = {|2, 6, 10, 14|}
   \<and> \<not> fcard (survivingData undivided crowdedLeaf) \<le> g_minDataSize
   \<and> \<not> shouldSubdivide undivided (survivingData undivided crowdedLeaf) (\<lambda>r. (0, 16))
   \<and> (\<exists>n'. rebalance 1 crowdedLeaf = Inr n' \<and> \<not> hasChildren n'
           \<and> m_data n' = {|2, 6, 10, 14|})
   \<and> m_predicate quartersRoot = Some quarters
   \<and> shouldSubdivide quarters (survivingData quarters quartersRoot)
        (\<lambda>r. case r of UPPER_LEFT \<Rightarrow> (0, 4) | UPPER_RIGHT \<Rightarrow> (4, 4)
                   | LOWER_LEFT \<Rightarrow> (8, 4) | LOWER_RIGHT \<Rightarrow> (12, 4))"
proof -
  have h1: "m_predicate crowdedLeaf = Some undivided" by (simp add: crowdedLeaf_def)
  have S: "survivingData undivided crowdedLeaf = {|2, 6, 10, 14|}"
    by (simp add: survivingData_def crowdedLeaf_def getAllChildValues_alt ffilter_finsert
          ffilter_fempty)
  have h2: "candidateQuads undivided crowdedLeaf = Some (\<lambda>r. (0, 16))"
    by (simp add: candidateQuads_def crowdedLeaf_def)
  have big: "\<not> fcard (survivingData undivided crowdedLeaf) \<le> g_minDataSize"
    by (simp add: S g_minDataSize_def fcard_finsert_if fcard_fempty)
  have h3: "\<forall>v r. v |\<in>| survivingData undivided crowdedLeaf \<longrightarrow> satisfies undivided ((\<lambda>r. (0, 16)) r) v"
    by (auto simp: S)
  have g1: "m_predicate quartersRoot = Some quarters" by (simp add: quartersRoot_def)
  have g2: "candidateQuads quarters quartersRoot =
      Some (\<lambda>r. case r of UPPER_LEFT \<Rightarrow> (0, 4) | UPPER_RIGHT \<Rightarrow> (4, 4)
                   | LOWER_LEFT \<Rightarrow> (8, 4) | LOWER_RIGHT \<Rightarrow> (12, 4))"
    by (auto simp: candidateQuads_def quartersRoot_def quartersLeaf_def fun_eq_iff
          split: RegionCode.splits)
  have g3: "\<exists>v r. v |\<in>| survivingData quarters quartersRoot \<and>
      \<not> satisfies quarters ((\<lambda>r. case r of UPPER_LEFT \<Rightarrow> (0, 4) | UPPER_RIGHT \<Rightarrow> (4, 4)
                   | LOWER_LEFT \<Rightarrow> (8, 4) | LOWER_RIGHT \<Rightarrow> (12, 4)) r) v"
    by (intro exI[of _ 2] exI[of _ UPPER_RIGHT])
      (simp add: survivingData_def quartersRoot_def quartersLeaf_def getAllChildValues_alt)
  from no_discrimination_no_children[OF h1 h2, of 0] h3
       no_discrimination_no_children[OF g1 g2, of 0] g3
       h1 h2 S big g1
  show ?thesis by (simp only: S One_nat_def) blast
qed

subsection \<open>What rebalance keeps\<close>

lemma slotNodes_simps [simp]: "slotNodes None = {}" "slotNodes (Some n) = set (subnodes n)"
  by (simp_all add: slotNodes_def)

lemma set_subnodes:
  "set (subnodes (Node p c ul ur ll lr d)) =
     insert (Node p c ul ur ll lr d) (slotNodes ul \<union> slotNodes ur \<union> slotNodes ll \<union> slotNodes lr)"
  by (cases ul; cases ur; cases ll; cases lr) auto

lemmas [simp del] = subnodes.simps

lemma self_in_subnodes [simp]: "n \<in> set (subnodes n)"
  by (cases n) (simp add: set_subnodes)





lemma held_simps [simp]:
  "held pr v None = False"
  "held pr v (Some m) = (satisfies pr (m_compare m) v \<and> v |\<in>| getAllChildValues m)"
  by (simp_all add: held_def)

lemma getAllChildValues_setData:
  "getAllChildValues (setData n X) |\<subseteq>| getAllChildValues n |\<union>| X"
  by (cases n) (auto simp: getAllChildValues_alt)


lemma slotVals_map_same:
  "(\<And>m. f (g m) = f m) \<Longrightarrow> slotVals f (map_option g s) = slotVals f s"
  by (cases s) simp_all

lemma getAllChildValues_writeQuads [simp]:
  "getAllChildValues (writeQuads n q) = getAllChildValues n"
  by (cases n) (simp add: writeQuads_alt getAllChildValues_alt slotVals_map_same)

lemma getAllChildValues_newNode [simp]: "getAllChildValues (newNode pr) = {||}"
  by (simp add: newNode_def getAllChildValues_alt)

lemma getAllChildValues_createChildren [simp]:
  "getAllChildValues (createChildren pr n q) = getAllChildValues n"
  by (cases n) (simp add: getAllChildValues_alt split: option.splits)















lemma addAll_m_compare [simp]: "m_compare (addAll n S) = m_compare n"
  unfolding addAll_def
  by (rule fold_add_preserves[where Q = "\<lambda>m. m_compare m = m_compare n"]) simp_all

lemma writeQuads_sel [simp]:
  "m_compare (writeQuads n q) = m_compare n" "m_data (writeQuads n q) = m_data n"
  by (cases n; simp add: writeQuads_alt)+

lemma createChildren_sel [simp]:
  "m_compare (createChildren pr n q) = m_compare n" "m_data (createChildren pr n q) = m_data n"
  by (cases n; simp)+










subsection \<open>Copying on the heap\<close>

lemma repr_alt:
  "repr preds h n a \<longleftrightarrow>
     a < length h \<and> map_option preds (c_predicate (h ! a)) = m_predicate n
     \<and> c_compare (h ! a) = m_compare n \<and> c_data (h ! a) = m_data n
     \<and> (\<forall>r. reprSlot preds h (m_mapRegions n r) (c_mapRegions (h ! a) r))"
proof (cases n)
  case (Node p c ul ur ll lr d)
  have "(\<forall>r. Q r) \<longleftrightarrow> Q UPPER_LEFT \<and> Q UPPER_RIGHT \<and> Q LOWER_LEFT \<and> Q LOWER_RIGHT" for Q
    by (metis RegionCode.exhaust)
  then show ?thesis
    unfolding Node by (simp add: reprSlot_def)
qed

lemma footprint_alt:
  "footprint h n a =
     insert a (\<Union>r. slotFootprint h (m_mapRegions n r) (c_mapRegions (h ! a) r))"
proof (cases n)
  case (Node p c ul ur ll lr d)
  have "(\<Union>r. Q r) = Q UPPER_LEFT \<union> Q UPPER_RIGHT \<union> Q LOWER_LEFT \<union> Q LOWER_RIGHT"
    for Q :: "RegionCode \<Rightarrow> nat set"
  proof -
    have U: "UNIV = {UPPER_LEFT, UPPER_RIGHT, LOWER_LEFT, LOWER_RIGHT}"
      using RegionCode.exhaust by auto
    show ?thesis unfolding U by auto
  qed
  then show ?thesis
    unfolding Node by (simp add: slotFootprint_def)
qed

lemmas [simp del] = repr.simps footprint.simps

lemma child_induct [case_names Node]:
  assumes "\<And>n. (\<And>r m. m_mapRegions n r = Some m \<Longrightarrow> Q m) \<Longrightarrow> Q n"
  shows "Q n"
proof (induction n)
  case (Node p c ul ur ll lr d)
  show ?case
  proof (rule assms)
    fix r m assume "m_mapRegions (Node p c ul ur ll lr d) r = Some m"
    then show "Q m" using Node by (cases r) auto
  qed
qed

lemma height_child: "m_mapRegions n r = Some m \<Longrightarrow> height m < height n"
  by (cases n; cases r) (auto simp: less_Suc_eq_le max_def)

lemma reprSlot_simps [simp]:
  "reprSlot preds h None po \<longleftrightarrow> po = None"
  "reprSlot preds h (Some n) po \<longleftrightarrow> (\<exists>b. po = Some b \<and> repr preds h n b)"
  by (auto simp: reprSlot_def split: option.splits)

lemma slotFootprint_simps [simp]:
  "slotFootprint h None po = {}"
  "slotFootprint h (Some n) (Some b) = footprint h n b"
  "slotFootprint h s None = {}"
  by (auto simp: slotFootprint_def split: option.splits)

text \<open>Frame: a representation only depends on the cells of its footprint.\<close>

lemma repr_frame:
  "repr preds h n a \<Longrightarrow> (\<forall>x \<in> footprint h n a. x < length h' \<and> h' ! x = h ! x) \<Longrightarrow>
     repr preds h' n a \<and> footprint h' n a = footprint h n a"
proof (induction n arbitrary: a rule: child_induct)
  case (Node n)
  from Node.prems(1) have a: "a < length h"
    and fields: "map_option preds (c_predicate (h ! a)) = m_predicate n"
      "c_compare (h ! a) = m_compare n" "c_data (h ! a) = m_data n"
    and slots: "\<And>r. reprSlot preds h (m_mapRegions n r) (c_mapRegions (h ! a) r)"
    by (simp_all add: repr_alt)
  have ain: "a \<in> footprint h n a" by (subst footprint_alt) simp
  with Node.prems(2) have same: "a < length h'" "h' ! a = h ! a" by auto
  have sub: "slotFootprint h (m_mapRegions n r) (c_mapRegions (h ! a) r) \<subseteq> footprint h n a" for r
    by (subst footprint_alt) auto
  have slot: "reprSlot preds h' (m_mapRegions n r) (c_mapRegions (h ! a) r)
      \<and> slotFootprint h' (m_mapRegions n r) (c_mapRegions (h ! a) r)
          = slotFootprint h (m_mapRegions n r) (c_mapRegions (h ! a) r)" for r
  proof (cases "m_mapRegions n r")
    case None
    with slots[of r] show ?thesis by simp
  next
    case (Some m)
    with slots[of r] obtain b where b: "c_mapRegions (h ! a) r = Some b" "repr preds h m b"
      by auto
    from sub[of r] Some b(1) Node.prems(2)
    have "\<forall>x \<in> footprint h m b. x < length h' \<and> h' ! x = h ! x" by auto
    from Node.IH[OF Some b(2) this] Some b(1) show ?thesis by simp
  qed
  show ?case
    unfolding repr_alt[of preds h'] footprint_alt[of h'] footprint_alt[of h]
    using same fields slot by simp
qed

lemma footprint_bound: "repr preds h n a \<Longrightarrow> footprint h n a \<subseteq> {..<length h}"
proof (induction n arbitrary: a rule: child_induct)
  case (Node n)
  from Node.prems have a: "a < length h"
    and slots: "\<And>r. reprSlot preds h (m_mapRegions n r) (c_mapRegions (h ! a) r)"
    by (simp_all add: repr_alt)
  have "slotFootprint h (m_mapRegions n r) (c_mapRegions (h ! a) r) \<subseteq> {..<length h}" for r
  proof (cases "m_mapRegions n r")
    case None
    then show ?thesis by simp
  next
    case (Some m)
    with slots[of r] obtain b where "c_mapRegions (h ! a) r = Some b" "repr preds h m b" by auto
    with Node.IH[OF Some] Some show ?thesis by simp
  qed
  with a show ?case by (subst footprint_alt) auto
qed

lemma reprSlot_frame:
  assumes "reprSlot preds h s po"
      and "\<forall>x \<in> slotFootprint h s po. x < length h' \<and> h' ! x = h ! x"
  shows "reprSlot preds h' s po \<and> slotFootprint h' s po = slotFootprint h s po"
proof (cases s)
  case None
  with assms(1) show ?thesis by simp
next
  case (Some m)
  with assms(1) obtain b where b: "po = Some b" "repr preds h m b" by auto
  with assms(2) Some have "\<forall>x \<in> footprint h m b. x < length h' \<and> h' ! x = h ! x" by simp
  from repr_frame[OF b(2) this] Some b(1) show ?thesis by simp
qed

lemma setRegion_length [simp]: "length (setRegion h this r a) = length h"
  by (simp add: setRegion_def)

lemma setRegion_other [simp]: "x \<noteq> this \<Longrightarrow> setRegion h this r a ! x = h ! x"
  by (simp add: setRegion_def)

lemma setRegion_this:
  "this < length h \<Longrightarrow>
     setRegion h this r a ! this = (h ! this)\<lparr>c_mapRegions := (c_mapRegions (h ! this))(r \<mapsto> a)\<rparr>"
  by (simp add: setRegion_def)

lemma copy_step_some:
  assumes orig: "repr preds h n other" and L: "this = length h"
      and inv: "copyInv preds h n this seen hc" and r: "r \<notin> seen"
      and m: "m_mapRegions n r = Some m" and spec: "copySpec preds k m"
  shows "\<exists>child h1. c_mapRegions (hc ! other) r = Some child
           \<and> h_copyNode k hc child = Some (h1, length hc)
           \<and> copyInv preds h n this (insert r seen) (setRegion h1 this r (length hc))"
proof -
  from orig have other: "other < length h"
    and oslot: "reprSlot preds h (m_mapRegions n r) (c_mapRegions (h ! other) r)"
    by (simp_all add: repr_alt)
  from inv have len: "this < length hc" and pre: "\<And>x. x < this \<Longrightarrow> hc ! x = h ! x"
    and fields: "map_option preds (c_predicate (hc ! this)) = m_predicate n"
      "c_compare (hc ! this) = m_compare n" "c_data (hc ! this) = m_data n"
    and undone: "\<And>r'. r' \<notin> seen \<Longrightarrow> c_mapRegions (hc ! this) r' = None"
    and old: "\<And>r'. r' \<in> seen \<Longrightarrow>
        reprSlot preds hc (m_mapRegions n r') (c_mapRegions (hc ! this) r')
        \<and> slotFootprint hc (m_mapRegions n r') (c_mapRegions (hc ! this) r') \<subseteq> {this<..<length hc}"
    by (simp_all add: copyInv_def)
  from oslot m obtain b where b: "c_mapRegions (h ! other) r = Some b" "repr preds h m b" by auto
  from other L pre have "hc ! other = h ! other" by simp
  with b(1) have child: "c_mapRegions (hc ! other) r = Some b" by simp
  have "\<forall>x \<in> footprint h m b. x < length hc \<and> hc ! x = h ! x"
    using footprint_bound[OF b(2)] L len pre by auto
  with b(2) have rb: "repr preds hc m b" by (auto dest: repr_frame)
  with spec obtain h1 where h1: "h_copyNode k hc b = Some (h1, length hc)" "length hc < length h1"
    "\<And>x. x < length hc \<Longrightarrow> h1 ! x = hc ! x" "repr preds h1 m (length hc)"
    "footprint h1 m (length hc) \<subseteq> {length hc..<length h1}"
    unfolding copySpec_def by blast
  let ?h2 = "setRegion h1 this r (length hc)"
  have this1: "this < length h1" using len h1(2) by simp
  have cell: "?h2 ! this = (hc ! this)\<lparr>c_mapRegions := (c_mapRegions (hc ! this))(r \<mapsto> length hc)\<rparr>"
    using setRegion_this[OF this1] h1(3)[OF len] by simp
  have agree1: "?h2 ! x = h1 ! x" if "x \<noteq> this" for x using that by simp
  have "copyInv preds h n this (insert r seen) ?h2"
    unfolding copyInv_def
  proof (intro conjI allI ballI impI)
    show "this < length ?h2" using this1 by simp
  next
    fix x assume "x < this"
    then show "?h2 ! x = h ! x" using h1(3)[of x] pre[of x] len by simp
  next
    show "map_option preds (c_predicate (?h2 ! this)) = m_predicate n"
      "c_compare (?h2 ! this) = m_compare n" "c_data (?h2 ! this) = m_data n"
      using fields by (simp_all add: cell)
  next
    fix r' assume "r' \<notin> insert r seen"
    then show "c_mapRegions (?h2 ! this) r' = None" using undone[of r'] by (simp add: cell)
  next
    fix r' assume r': "r' \<in> insert r seen"
    show "reprSlot preds ?h2 (m_mapRegions n r') (c_mapRegions (?h2 ! this) r')"
     and "slotFootprint ?h2 (m_mapRegions n r') (c_mapRegions (?h2 ! this) r') \<subseteq> {this<..<length ?h2}"
    proof -
      have "reprSlot preds ?h2 (m_mapRegions n r') (c_mapRegions (?h2 ! this) r')
          \<and> slotFootprint ?h2 (m_mapRegions n r') (c_mapRegions (?h2 ! this) r')
               \<subseteq> {this<..<length ?h2}"
      proof (cases "r' = r")
        case True
        have "\<forall>x \<in> footprint h1 m (length hc). x < length ?h2 \<and> ?h2 ! x = h1 ! x"
          using h1(5) len by auto
        from repr_frame[OF h1(4) this] h1(5) len True m show ?thesis
          by (auto simp: cell)
      next
        case False
        with r' have d: "r' \<in> seen" by simp
        from False have same: "c_mapRegions (?h2 ! this) r' = c_mapRegions (hc ! this) r'"
          by (simp add: cell)
        have "\<forall>x \<in> slotFootprint hc (m_mapRegions n r') (c_mapRegions (hc ! this) r').
                x < length ?h2 \<and> ?h2 ! x = hc ! x"
          using old[OF d] h1(2) h1(3) by auto
        from reprSlot_frame[OF conjunct1[OF old[OF d]] this] old[OF d] h1(2)
        show ?thesis unfolding same by auto
      qed
      then show "reprSlot preds ?h2 (m_mapRegions n r') (c_mapRegions (?h2 ! this) r')"
        and "slotFootprint ?h2 (m_mapRegions n r') (c_mapRegions (?h2 ! this) r') \<subseteq> {this<..<length ?h2}"
        by blast+
    qed
  qed
  with child h1(1) show ?thesis by blast
qed

lemma copy_step_none:
  assumes orig: "repr preds h n other" and L: "this = length h"
      and inv: "copyInv preds h n this seen hc" and r: "r \<notin> seen"
      and m: "m_mapRegions n r = None"
  shows "c_mapRegions (hc ! other) r = None \<and> copyInv preds h n this (insert r seen) hc"
proof -
  from orig have other: "other < length h"
    and oslot: "reprSlot preds h (m_mapRegions n r) (c_mapRegions (h ! other) r)"
    by (simp_all add: repr_alt)
  from inv L other have "hc ! other = h ! other" by (simp add: copyInv_def)
  with oslot m have "c_mapRegions (hc ! other) r = None" by simp
  moreover from inv r m have "copyInv preds h n this (insert r seen) hc"
    by (auto simp: copyInv_def)
  ultimately show ?thesis by blast
qed

lemma copy_loop:
  assumes orig: "repr preds h n other" and L: "this = length h"
      and spec: "\<And>r m. m_mapRegions n r = Some m \<Longrightarrow> copySpec preds k m"
  shows "copyInv preds h n this seen hc \<Longrightarrow> distinct rs \<Longrightarrow> set rs \<inter> seen = {} \<Longrightarrow>
     \<exists>h'. h_copyChildren (h_copyNode k) other this rs hc = Some h'
          \<and> copyInv preds h n this (seen \<union> set rs) h'"
proof (induction rs arbitrary: seen hc)
  case Nil
  then show ?case by simp
next
  case (Cons r rs)
  from Cons.prems have r: "r \<notin> seen" and rs: "distinct rs" "set rs \<inter> insert r seen = {}"
    by auto
  show ?case
  proof (cases "m_mapRegions n r")
    case None
    from copy_step_none[OF orig L Cons.prems(1) r None]
    have skip: "c_mapRegions (hc ! other) r = None"
      and inv': "copyInv preds h n this (insert r seen) hc" by blast+
    from Cons.IH[OF inv' rs] skip show ?thesis by simp
  next
    case (Some m)
    from copy_step_some[OF orig L Cons.prems(1) r Some spec[OF Some]]
    obtain child h1 where c: "c_mapRegions (hc ! other) r = Some child"
      "h_copyNode k hc child = Some (h1, length hc)"
      and inv': "copyInv preds h n this (insert r seen) (setRegion h1 this r (length hc))"
      by blast
    from Cons.IH[OF inv' rs] c show ?thesis by simp
  qed
qed

lemma height_pos: "0 < height n"
  by (cases n) simp

lemma copyInv_start:
  assumes "repr preds h n other"
  shows "copyInv preds h n (length h) {} (h @ [copyInit (h ! other)])"
  using assms by (simp add: copyInv_def repr_alt copyInit_def nth_append)

lemma copyInv_finish:
  assumes "copyInv preds h n this UNIV h'"
  shows "repr preds h' n this \<and> footprint h' n this \<subseteq> {this..<length h'}
         \<and> this < length h' \<and> (\<forall>x < this. h' ! x = h ! x)"
proof -
  from assms have "footprint h' n this \<subseteq> {this..<length h'}"
    by (subst footprint_alt) (force simp: copyInv_def)
  with assms show ?thesis by (simp add: copyInv_def repr_alt)
qed

lemma h_copyNode_correct: "height n \<le> k \<Longrightarrow> copySpec preds k n"
proof (induction n arbitrary: k rule: child_induct)
  case (Node n)
  from Node.prems height_pos[of n] obtain k' where k: "k = Suc k'" by (cases k) auto
  have spec: "copySpec preds k' m" if "m_mapRegions n r = Some m" for r m
  proof -
    from height_child[OF that] Node.prems k have "height m \<le> k'" by simp
    with that show ?thesis by (rule Node.IH)
  qed
  show ?case
    unfolding copySpec_def
  proof (intro allI impI)
    fix hx b assume rp: "repr preds hx n b"
    then have b: "b < length hx" by (simp add: repr_alt)
    have "\<exists>h'. h_copyChildren (h_copyNode k') b (length hx) regionCodes
                  (hx @ [copyInit (hx ! b)]) = Some h'
              \<and> copyInv preds hx n (length hx) ({} \<union> set regionCodes) h'"
    proof (rule copy_loop[OF rp refl])
      show "copySpec preds k' m" if "m_mapRegions n r = Some m" for r m
        using that by (rule spec)
      show "copyInv preds hx n (length hx) {} (hx @ [copyInit (hx ! b)])"
        by (rule copyInv_start[OF rp])
      show "distinct regionCodes" by (simp add: regionCodes_def)
      show "set regionCodes \<inter> {} = {}" by simp
    qed
    then obtain h' where h': "h_copyChildren (h_copyNode k') b (length hx) regionCodes
                            (hx @ [copyInit (hx ! b)]) = Some h'"
      and inv: "copyInv preds hx n (length hx) UNIV h'"
      by (auto simp: set_regionCodes)
    from copyInv_finish[OF inv] h' b
    show "\<exists>h1. h_copyNode k hx b = Some (h1, length hx) \<and> length hx < length h1
           \<and> (\<forall>x < length hx. h1 ! x = hx ! x) \<and> repr preds h1 n (length hx)
           \<and> footprint h1 n (length hx) \<subseteq> {length hx..<length h1}"
      by (simp add: k)
  qed
qed

text \<open>The query on the heap computes the query on the tree it represents.\<close>

lemma h_childValues_correct:
  assumes "\<And>r. reprSlot preds h (m_mapRegions n r) (c_mapRegions node r)"
      and "\<And>r m b. m_mapRegions n r = Some m \<Longrightarrow> repr preds h m b \<Longrightarrow> f b = Some (getNearbyValues m q)"
  shows "h_childValues f node rs acc =
     Some (fold (\<lambda>r vals. vals |\<union>| slotVals (\<lambda>m. getNearbyValues m q) (m_mapRegions n r)) rs acc)"
proof (induction rs arbitrary: acc)
  case Nil
  then show ?case by simp
next
  case (Cons r rs)
  show ?case
  proof (cases "m_mapRegions n r")
    case None
    with assms(1)[of r] Cons.IH show ?thesis by simp
  next
    case (Some m)
    with assms(1)[of r] obtain b where b: "c_mapRegions node r = Some b" "repr preds h m b"
      by auto
    with assms(2)[OF Some b(2)] Some Cons.IH show ?thesis by simp
  qed
qed

lemma getNearbyValues_by_regions:
  "getNearbyValues n q =
     fold (\<lambda>r vals. vals |\<union>| slotVals (\<lambda>m. getNearbyValues m q) (m_mapRegions n r)) regionCodes {||}
     |\<union>| (case m_predicate n of None \<Rightarrow> {||}
          | Some pr \<Rightarrow> if overlaps pr (m_compare n) q then m_data n else {||})"
  by (cases n) (simp add: getNearbyValues_alt regionCodes_def split: option.splits)

lemma h_getNearbyValues_correct:
  "repr preds h n a \<Longrightarrow> height n \<le> k \<Longrightarrow>
     h_getNearbyValues k preds h a q = Some (getNearbyValues n q)"
proof (induction n arbitrary: a k rule: child_induct)
  case (Node n)
  from Node.prems(2) height_pos[of n] obtain k' where k: "k = Suc k'" by (cases k) auto
  from Node.prems(1) have a: "a < length h"
    and fields: "map_option preds (c_predicate (h ! a)) = m_predicate n"
      "c_compare (h ! a) = m_compare n" "c_data (h ! a) = m_data n"
    and slots: "\<And>r. reprSlot preds h (m_mapRegions n r) (c_mapRegions (h ! a) r)"
    by (simp_all add: repr_alt)
  have rec: "h_getNearbyValues k' preds h b q = Some (getNearbyValues m q)"
    if "m_mapRegions n r = Some m" "repr preds h m b" for r m b
  proof -
    from height_child[OF that(1)] Node.prems(2) k have "height m \<le> k'" by simp
    with that show ?thesis by (intro Node.IH)
  qed
  let ?kids = "fold (\<lambda>r vals. vals |\<union>| slotVals (\<lambda>m. getNearbyValues m q) (m_mapRegions n r))
                 regionCodes {||}"
  have loop: "h_childValues (\<lambda>child. h_getNearbyValues k' preds h child q) (h ! a) regionCodes {||}
      = Some ?kids"
    by (rule h_childValues_correct[OF slots rec])
  have none: "?kids = {||}" if "\<not> list_ex (\<lambda>r. c_mapRegions (h ! a) r \<noteq> None) regionCodes"
  proof -
    from that have "c_mapRegions (h ! a) r = None" for r
      by (cases r) (simp_all add: regionCodes_def)
    note nochild = this
    have "m_mapRegions n r = None" for r
    proof (cases "m_mapRegions n r")
      case None
      then show ?thesis .
    next
      case (Some m)
      with slots[of r] obtain b where "c_mapRegions (h ! a) r = Some b" by auto
      with nochild[of r] show ?thesis by simp
    qed
    then show ?thesis by (simp add: regionCodes_def)
  qed
  have own: "(case c_predicate (h ! a) of None \<Rightarrow> {||}
              | Some p \<Rightarrow> if overlaps (preds p) (c_compare (h ! a)) q then c_data (h ! a) else {||})
      = (case m_predicate n of None \<Rightarrow> {||}
          | Some pr \<Rightarrow> if overlaps pr (m_compare n) q then m_data n else {||})"
  proof (cases "c_predicate (h ! a)")
    case None
    with fields(1) have "m_predicate n = None" by simp
    with None show ?thesis by simp
  next
    case (Some p)
    with fields(1) have "m_predicate n = Some (preds p)" by simp
    with Some fields(2,3) show ?thesis by simp
  qed
  let ?own = "case m_predicate n of None \<Rightarrow> {||}
          | Some pr \<Rightarrow> if overlaps pr (m_compare n) q then m_data n else {||}"
  have "h_getNearbyValues (Suc k') preds h a q = Some (?kids |\<union>| ?own)"
  proof (cases "list_ex (\<lambda>r. c_mapRegions (h ! a) r \<noteq> None) regionCodes")
    case True
    then show ?thesis
      by (simp only: h_getNearbyValues.simps a if_True loop option.case own)
  next
    case False
    then show ?thesis
      by (simp only: h_getNearbyValues.simps a if_True if_False none[OF False] option.case own)
  qed
  then show ?case
    unfolding k by (simp only: getNearbyValues_by_regions[of n q])
qed

text \<open>
  Claim C8. Let a store hold a tree. The copy constructor returns (given a depth bound of at
  least the height of the tree) a handle with the same predicate pointer and a root that
  represents the same tree value; it writes no cell of the original, its nodes lie in cells
  allocated by the copy, so no node is shared; the copy answers every query as the original
  does; and whatever is later written to cells allocated by or after the copy, the
  original answers every query as before. The move constructor hands over the root and
  predicate pointers as they are, without touching the store, and leaves the source with
  two null pointers.
\<close>

theorem copy_is_deep_and_move_transfers:
  assumes "reprTree preds h t ht" and "treeHeight t \<le> depth"
  shows "\<exists>h' copy. h_copyTree depth h ht = Some (h', copy)
          \<and> h_predicate copy = h_predicate ht
          \<and> length h \<le> length h' \<and> (\<forall>x < length h. h' ! x = h ! x)
          \<and> reprTree preds h' t copy \<and> reprTree preds h' t ht
          \<and> treeFootprint h' t ht \<subseteq> {..<length h}
          \<and> treeFootprint h' t copy \<subseteq> {length h..<length h'}
          \<and> (\<forall>q. h_tree_getNearbyValues depth preds h' copy q = Some (tree_getNearbyValues t q)
                 \<and> h_tree_getNearbyValues depth preds h ht q = Some (tree_getNearbyValues t q))
          \<and> (\<forall>h'' q. (\<forall>x < length h. x < length h'' \<and> h'' ! x = h' ! x) \<longrightarrow>
                 h_tree_getNearbyValues depth preds h'' ht q
                   = h_tree_getNearbyValues depth preds h ht q)
          \<and> h_moveTree ht = (ht, \<lparr>h_predicate = None, h_tree = None\<rparr>)"
proof -
  have move: "h_moveTree ht = (ht, \<lparr>h_predicate = None, h_tree = None\<rparr>)"
    by (simp add: h_moveTree_def h_swap_def)
  from assms(1) have pred: "map_option preds (h_predicate ht) = tree_predicate t"
    and root: "reprSlot preds h (m_tree t) (h_tree ht)"
    by (simp_all add: reprTree_def)
  show ?thesis
  proof (cases "m_tree t")
    case None
    with root have ht: "h_tree ht = None" by simp
    let ?copy = "\<lparr>h_predicate = h_predicate ht, h_tree = None\<rparr>"
    have "h_copyTree depth h ht = Some (h, ?copy)" by (simp add: h_copyTree_def ht)
    moreover have "reprTree preds h t ?copy" "reprTree preds h t ht"
      using pred None ht by (simp_all add: reprTree_def)
    moreover have "treeFootprint h t ht = {}" "treeFootprint h t ?copy = {}"
      using None by (simp_all add: treeFootprint_def)
    moreover have "h_tree_getNearbyValues depth preds hx ?copy q = Some (tree_getNearbyValues t q)"
      "h_tree_getNearbyValues depth preds hx ht q = Some (tree_getNearbyValues t q)" for hx q
      using None ht by (simp_all add: h_tree_getNearbyValues_def tree_getNearbyValues_def)
    ultimately show ?thesis using move by (intro exI[of _ h] exI[of _ ?copy]) simp
  next
    case (Some n)
    with root obtain a where a: "h_tree ht = Some a" "repr preds h n a" by auto
    from assms(2) Some have hn: "height n \<le> depth" by (simp add: treeHeight_def)
    from h_copyNode_correct[OF hn, of preds] a(2)
    obtain h1 where h1: "h_copyNode depth h a = Some (h1, length h)" "length h < length h1"
      "\<And>x. x < length h \<Longrightarrow> h1 ! x = h ! x" "repr preds h1 n (length h)"
      "footprint h1 n (length h) \<subseteq> {length h..<length h1}"
      unfolding copySpec_def by blast
    let ?copy = "\<lparr>h_predicate = h_predicate ht, h_tree = Some (length h)\<rparr>"
    have bound: "footprint h n a \<subseteq> {..<length h}" using a(2) by (rule footprint_bound)
    have keep: "repr preds hx n a \<and> footprint hx n a = footprint h n a"
      if "\<forall>x < length h. x < length hx \<and> hx ! x = h ! x" for hx
      using a(2) bound that by (intro repr_frame) auto
    have orig1: "repr preds h1 n a" "footprint h1 n a = footprint h n a"
      using keep[of h1] h1(2,3) by auto
    have c: "h_copyTree depth h ht = Some (h1, ?copy)"
      by (simp add: h_copyTree_def a(1) h1(1))
    have r1: "reprTree preds h1 t ?copy" "reprTree preds h1 t ht"
      using pred Some a(1) h1(4) orig1(1) by (simp_all add: reprTree_def)
    have f1: "treeFootprint h1 t ht \<subseteq> {..<length h}"
      "treeFootprint h1 t ?copy \<subseteq> {length h..<length h1}"
      using Some a(1) orig1(2) bound h1(5) by (simp_all add: treeFootprint_def)
    have q1: "h_tree_getNearbyValues depth preds h1 ?copy q = Some (tree_getNearbyValues t q)"
      "h_tree_getNearbyValues depth preds h ht q = Some (tree_getNearbyValues t q)" for q
      using h_getNearbyValues_correct[OF h1(4) hn] h_getNearbyValues_correct[OF a(2) hn] Some a(1)
      by (simp_all add: h_tree_getNearbyValues_def tree_getNearbyValues_def)
    have q2: "h_tree_getNearbyValues depth preds h'' ht q = h_tree_getNearbyValues depth preds h ht q"
      if "\<forall>x < length h. x < length h'' \<and> h'' ! x = h1 ! x" for h'' q
    proof -
      from that h1(3) have "\<forall>x < length h. x < length h'' \<and> h'' ! x = h ! x" by simp
      from keep[OF this] have "repr preds h'' n a" by simp
      from h_getNearbyValues_correct[OF this hn] q1(2)[of q] a(1) Some show ?thesis
        by (simp add: h_tree_getNearbyValues_def tree_getNearbyValues_def)
    qed
    have grow: "length h \<le> length h1" "\<forall>x < length h. h1 ! x = h ! x"
      using h1(2,3) by simp_all
    have frame: "\<forall>h'' q. (\<forall>x < length h. x < length h'' \<and> h'' ! x = h1 ! x) \<longrightarrow>
                 h_tree_getNearbyValues depth preds h'' ht q
                   = h_tree_getNearbyValues depth preds h ht q"
      using q2 by blast
    have queries: "\<forall>q. h_tree_getNearbyValues depth preds h1 ?copy q = Some (tree_getNearbyValues t q)
                 \<and> h_tree_getNearbyValues depth preds h ht q = Some (tree_getNearbyValues t q)"
      using q1 by blast
    have "h_predicate ?copy = h_predicate ht" by simp
    with c grow r1 f1 queries frame move show ?thesis
      by (intro exI[of _ h1] exI[of _ ?copy] conjI)

  qed
qed

lemma quartersHeap_repr: "reprTree (\<lambda>p. quarters) quartersHeap rebalancedFour quartersHandle"
  by (simp add: reprTree_def rebalancedFour_def quartersHandle_def quartersRoot_def
        quartersLeaf_def quartersHeap_def leafCell_def repr.simps)

lemma rebalancedFour_height: "treeHeight rebalancedFour \<le> 2"
  by (simp add: treeHeight_def rebalancedFour_def quartersRoot_def quartersLeaf_def)

theorem copy_is_deep_and_move_transfers_witness:
  "reprTree (\<lambda>p. quarters) quartersHeap rebalancedFour quartersHandle
   \<and> treeHeight rebalancedFour \<le> 2
   \<and> (\<exists>h' copy. h_copyTree 2 quartersHeap quartersHandle = Some (h', copy)
         \<and> h_predicate copy = h_predicate quartersHandle
         \<and> treeFootprint h' rebalancedFour copy \<subseteq> {length quartersHeap..<length h'}
         \<and> h_tree_getNearbyValues 2 (\<lambda>p. quarters) h' copy (0, 8)
             = h_tree_getNearbyValues 2 (\<lambda>p. quarters) quartersHeap quartersHandle (0, 8)
         \<and> h_tree_getNearbyValues 2 (\<lambda>p. quarters)
               (h'[5 := leafCell (0, 16) {||}]) quartersHandle (0, 8)
             = h_tree_getNearbyValues 2 (\<lambda>p. quarters) quartersHeap quartersHandle (0, 8))
   \<and> h_moveTree quartersHandle = (quartersHandle, \<lparr>h_predicate = None, h_tree = None\<rparr>)"
proof -
  let ?P = "\<lambda>p::nat. quarters"
  let ?body = "\<lambda>h' copy. h_copyTree 2 quartersHeap quartersHandle = Some (h', copy)
          \<and> h_predicate copy = h_predicate quartersHandle
          \<and> length quartersHeap \<le> length h' \<and> (\<forall>x < length quartersHeap. h' ! x = quartersHeap ! x)
          \<and> reprTree ?P h' rebalancedFour copy \<and> reprTree ?P h' rebalancedFour quartersHandle
          \<and> treeFootprint h' rebalancedFour quartersHandle \<subseteq> {..<length quartersHeap}
          \<and> treeFootprint h' rebalancedFour copy \<subseteq> {length quartersHeap..<length h'}
          \<and> (\<forall>q. h_tree_getNearbyValues 2 ?P h' copy q = Some (tree_getNearbyValues rebalancedFour q)
                 \<and> h_tree_getNearbyValues 2 ?P quartersHeap quartersHandle q
                      = Some (tree_getNearbyValues rebalancedFour q))
          \<and> (\<forall>h'' q. (\<forall>x < length quartersHeap. x < length h'' \<and> h'' ! x = h' ! x) \<longrightarrow>
                 h_tree_getNearbyValues 2 ?P h'' quartersHandle q
                   = h_tree_getNearbyValues 2 ?P quartersHeap quartersHandle q)
          \<and> h_moveTree quartersHandle = (quartersHandle, \<lparr>h_predicate = None, h_tree = None\<rparr>)"
  from copy_is_deep_and_move_transfers[OF quartersHeap_repr rebalancedFour_height]
  have "\<exists>h' copy. ?body h' copy" .
  then obtain h' where "\<exists>copy. ?body h' copy" ..
  then obtain copy where big: "?body h' copy" ..
  have len: "length quartersHeap = 5" by (simp add: quartersHeap_def)
  from big have grow: "length quartersHeap \<le> length h'" by (elim conjE)
  then have agree: "\<forall>x < length quartersHeap. x < length (h'[5 := leafCell (0, 16) {||}])
      \<and> h'[5 := leafCell (0, 16) {||}] ! x = h' ! x"
    by (simp add: len)
  from big have frame: "\<forall>h'' q. (\<forall>x < length quartersHeap. x < length h'' \<and> h'' ! x = h' ! x) \<longrightarrow>
                 h_tree_getNearbyValues 2 ?P h'' quartersHandle q
                   = h_tree_getNearbyValues 2 ?P quartersHeap quartersHandle q"
    by (elim conjE)
  from frame agree have q3: "h_tree_getNearbyValues 2 ?P (h'[5 := leafCell (0, 16) {||}]) quartersHandle (0, 8)
      = h_tree_getNearbyValues 2 ?P quartersHeap quartersHandle (0, 8)"
    by (elim allE[of _ "h'[5 := leafCell (0, 16) {||}]"] allE[of _ "(0, 8)"]) (rule mp)
  from big have qs: "\<forall>q. h_tree_getNearbyValues 2 ?P h' copy q = Some (tree_getNearbyValues rebalancedFour q)
                 \<and> h_tree_getNearbyValues 2 ?P quartersHeap quartersHandle q
                      = Some (tree_getNearbyValues rebalancedFour q)"
    by (elim conjE)
  then have q12: "h_tree_getNearbyValues 2 ?P h' copy (0, 8)
      = h_tree_getNearbyValues 2 ?P quartersHeap quartersHandle (0, 8)"
    by simp
  from big have c1: "h_copyTree 2 quartersHeap quartersHandle = Some (h', copy)"
    and c2: "h_predicate copy = h_predicate quartersHandle"
    and c3: "treeFootprint h' rebalancedFour copy \<subseteq> {length quartersHeap..<length h'}"
    and mv: "h_moveTree quartersHandle = (quartersHandle, \<lparr>h_predicate = None, h_tree = None\<rparr>)"
    by simp_all
  have "\<exists>h' copy. h_copyTree 2 quartersHeap quartersHandle = Some (h', copy)
         \<and> h_predicate copy = h_predicate quartersHandle
         \<and> treeFootprint h' rebalancedFour copy \<subseteq> {length quartersHeap..<length h'}
         \<and> h_tree_getNearbyValues 2 (\<lambda>p. quarters) h' copy (0, 8)
             = h_tree_getNearbyValues 2 (\<lambda>p. quarters) quartersHeap quartersHandle (0, 8)
         \<and> h_tree_getNearbyValues 2 (\<lambda>p. quarters)
               (h'[5 := leafCell (0, 16) {||}]) quartersHandle (0, 8)
             = h_tree_getNearbyValues 2 (\<lambda>p. quarters) quartersHeap quartersHandle (0, 8)"
    using c1 c2 c3 q12 q3 by (intro exI[of _ h'] exI[of _ copy] conjI)
  with quartersHeap_repr rebalancedFour_height mv show ?thesis by (intro conjI)
qed

end
